theory Spec2Isabelle
  imports Main "HOL-Library.Word" "HOL-Library.Multiset"
begin

section \<open>The fragment exchange queue of the audio hand-off layer\<close>

text \<open>
  This theory embeds \<^verbatim>\<open>AudioQueue.cxx\<close>: the constructor, \<^verbatim>\<open>capacity\<close>,
  \<^verbatim>\<open>size\<close>, \<^verbatim>\<open>enqueue\<close>, \<^verbatim>\<open>dequeue\<close>, \<^verbatim>\<open>closeSink\<close> and
  \<^verbatim>\<open>ignoreOverflows\<close>. Every member function takes the object before the call and
  returns what the caller receives (a value or the exception that escapes) together with
  the object after the call.
\<close>

subsection \<open>Data\<close>

type_synonym uInt8 = "8 word"
type_synonym uInt16 = "16 word"
type_synonym uInt32 = "32 word"

text \<open>
  A fragment handle is an \<^verbatim>\<open>Int16*\<close>: \<open>None\<close> is \<^verbatim>\<open>nullptr\<close>, \<open>Some d\<close> is the
  address \<^verbatim>\<open>myFragmentBuffer.get() + d\<close>, kept as its distance \<open>d\<close> (in samples) from
  the start of the sample buffer. The queue compares and moves handles and never reads
  the samples behind them.
\<close>

type_synonym fragment = "nat option"

text \<open>
  What a call can end with instead of a value: the two ways \<^verbatim>\<open>runtime_error\<close> is thrown
  (\<^verbatim>\<open>throw runtime_error(..)\<close> in enqueue and dequeue, \<^verbatim>\<open>throw new runtime_error(..)\<close> in
  closeSink), the \<^verbatim>\<open>std::out_of_range\<close> of \<^verbatim>\<open>vector::at\<close>, and undefined behaviour
  (a remainder by zero, an unchecked vector write past the end), after which the
  program has no defined state.
\<close>

datatype error =
    RuntimeError string
  | RuntimeErrorPtr string
  | OutOfRange
  | UndefinedBehaviour

text \<open>
  Modelled from the spec: the class declaration (the members of \<^verbatim>\<open>AudioQueue\<close> and
  their types) and the staggered logger are not among the sources. The members are the
  ones the member functions use, which are those of the specification's data model: the
  circular queue with its head index and count, the two exchange slots, the pool.
  \<open>mySize\<close> and \<open>myNextFragment\<close> are taken as \<^verbatim>\<open>uInt32\<close>, the type that
  \<^verbatim>\<open>size()\<close> returns.
  \<open>myFragmentBuffer\<close> keeps the number of samples allocated. Of the logger, whose
  contract is to record one overflow event per call, \<open>myOverflowLogger\<close> keeps the
  number of calls of \<^verbatim>\<open>log()\<close>. The mutex has no counterpart: calls are taken one
  at a time.
\<close>

record AudioQueue =
  myFragmentSize :: uInt32
  myIsStereo :: bool
  myFragmentQueue :: "fragment list"
  myAllFragments :: "fragment list"
  myFragmentBuffer :: uInt32
  mySize :: uInt32
  myNextFragment :: uInt32
  myFirstFragmentForEnqueue :: fragment
  myFirstFragmentForDequeue :: fragment
  myIgnoreOverflows :: bool
  myOverflowLogger :: nat

subsection \<open>Construction\<close>

definition sampleSize :: "bool \<Rightarrow> uInt8" where
  "sampleSize isStereo = (if isStereo then 2 else 1)"

text \<open>
  \<^verbatim>\<open>myFragmentBuffer.get() + i * sampleSize * myFragmentSize\<close>: the product is formed in
  \<^verbatim>\<open>uInt32\<close> and wraps around.
\<close>

definition fragmentAt :: "uInt32 \<Rightarrow> bool \<Rightarrow> uInt32 \<Rightarrow> fragment" where
  "fragmentAt fragmentSize isStereo i =
     Some (unat (i * ucast (sampleSize isStereo) * fragmentSize))"

text \<open>
  The constructor. \<open>myAllFragments\<close> is a vector of \<^verbatim>\<open>capacity + 2\<close> elements, a sum
  formed in \<^verbatim>\<open>uInt32\<close>; it is written with the unchecked \<^verbatim>\<open>operator[]\<close> up to index
  \<^verbatim>\<open>capacity + 1\<close>, which is past its end when the sum has wrapped around.
\<close>

definition AudioQueue :: "uInt32 \<Rightarrow> uInt32 \<Rightarrow> bool \<Rightarrow> error + AudioQueue" where
  "AudioQueue fragmentSize capacity isStereo =
     (if unat (capacity + 2) \<le> unat capacity then Inl UndefinedBehaviour
      else Inr \<lparr>
        myFragmentSize = fragmentSize,
        myIsStereo = isStereo,
        myFragmentQueue =
          map (\<lambda>i. fragmentAt fragmentSize isStereo (of_nat i)) [0..<unat capacity],
        myAllFragments =
          map (\<lambda>i. fragmentAt fragmentSize isStereo (of_nat i)) [0..<unat capacity]
          @ [fragmentAt fragmentSize isStereo capacity,
             fragmentAt fragmentSize isStereo (capacity + 1)],
        myFragmentBuffer = fragmentSize * ucast (sampleSize isStereo) * (capacity + 2),
        mySize = 0,
        myNextFragment = 0,
        myFirstFragmentForEnqueue = fragmentAt fragmentSize isStereo capacity,
        myFirstFragmentForDequeue = fragmentAt fragmentSize isStereo (capacity + 1),
        myIgnoreOverflows = True,
        myOverflowLogger = 0 \<rparr>)"

subsection \<open>Accessors\<close>

definition capacity :: "AudioQueue \<Rightarrow> uInt32" where
  "capacity q = of_nat (length (myFragmentQueue q))"

definition size_q :: "AudioQueue \<Rightarrow> uInt32" where
  "size_q q = mySize q"

definition isStereo :: "AudioQueue \<Rightarrow> bool" where
  "isStereo q = myIsStereo q"

definition fragmentSize :: "AudioQueue \<Rightarrow> uInt32" where
  "fragmentSize q = myFragmentSize q"

subsection \<open>The exchange operations\<close>

text \<open>
  \<^verbatim>\<open>enqueue\<close>. The local \<^verbatim>\<open>capacity\<close> is the vector's size cast to \<^verbatim>\<open>uInt16\<close>; the
  remainders are taken by it, in \<^verbatim>\<open>uInt32\<close>. Both accesses to the vector go through
  \<^verbatim>\<open>at\<close>, with the same index.
\<close>

definition enqueue :: "fragment \<Rightarrow> AudioQueue \<Rightarrow> (error + fragment) \<times> AudioQueue" where
  "enqueue fragment q =
     (case fragment of
        None \<Rightarrow>
          (case myFirstFragmentForEnqueue q of
             None \<Rightarrow> (Inl (RuntimeError ''enqueue called empty''), q)
           | Some newFragment \<Rightarrow>
               (Inr (Some newFragment), q\<lparr>myFirstFragmentForEnqueue := None\<rparr>))
      | Some _ \<Rightarrow>
          (let capacity = (of_nat (length (myFragmentQueue q)) :: uInt16) in
           if capacity = 0 then (Inl UndefinedBehaviour, q)
           else
             let fragmentIndex =
                   (ucast ((myNextFragment q + mySize q) mod ucast capacity) :: uInt16) in
             if length (myFragmentQueue q) \<le> unat fragmentIndex then (Inl OutOfRange, q)
             else
               let newFragment = myFragmentQueue q ! unat fragmentIndex;
                   q1 = q\<lparr>myFragmentQueue :=
                          (myFragmentQueue q)[unat fragmentIndex := fragment]\<rparr>;
                   q2 = (if mySize q1 < ucast capacity then q1\<lparr>mySize := mySize q1 + 1\<rparr>
                         else
                           let q3 = q1\<lparr>myNextFragment :=
                                      (myNextFragment q1 + 1) mod ucast capacity\<rparr>
                           in if \<not> myIgnoreOverflows q3
                              then q3\<lparr>myOverflowLogger := Suc (myOverflowLogger q3)\<rparr>
                              else q3)
               in (Inr newFragment, q2)))"

text \<open>
  \<^verbatim>\<open>dequeue\<close>. The remainder that advances the head is taken by the vector's full size
  (a \<^verbatim>\<open>size_t\<close>), after the increment in \<^verbatim>\<open>uInt32\<close>. When the argument is empty the
  exchange slot is emptied before the vector is accessed.
\<close>

definition dequeue :: "fragment \<Rightarrow> AudioQueue \<Rightarrow> (error + fragment) \<times> AudioQueue" where
  "dequeue fragment q =
     (if mySize q = 0 then (Inr None, q)
      else if fragment = None \<and> myFirstFragmentForDequeue q = None
      then (Inl (RuntimeError ''dequeue called empty''), q)
      else
        let fragment' = (if fragment = None then myFirstFragmentForDequeue q else fragment);
            q1 = (if fragment = None then q\<lparr>myFirstFragmentForDequeue := None\<rparr> else q)
        in
        if length (myFragmentQueue q1) \<le> unat (myNextFragment q1) then (Inl OutOfRange, q1)
        else
          let nextFragment = myFragmentQueue q1 ! unat (myNextFragment q1);
              q2 = q1\<lparr>myFragmentQueue :=
                     (myFragmentQueue q1)[unat (myNextFragment q1) := fragment']\<rparr>;
              q3 = q2\<lparr>mySize := mySize q2 - 1\<rparr>;
              q4 = q3\<lparr>myNextFragment :=
                     of_nat (unat (myNextFragment q3 + 1) mod length (myFragmentQueue q3))\<rparr>
          in (Inr nextFragment, q4))"

definition closeSink :: "fragment \<Rightarrow> AudioQueue \<Rightarrow> (error + unit) \<times> AudioQueue" where
  "closeSink fragment q =
     (if myFirstFragmentForDequeue q \<noteq> None \<and> fragment \<noteq> None
      then (Inl (RuntimeErrorPtr ''attempt to return unknown buffer on closeSink''), q)
      else if myFirstFragmentForDequeue q = None
      then (Inr (), q\<lparr>myFirstFragmentForDequeue := fragment\<rparr>)
      else (Inr (), q))"

definition ignoreOverflows :: "bool \<Rightarrow> AudioQueue \<Rightarrow> AudioQueue" where
  "ignoreOverflows shouldIgnoreOverflows q = q\<lparr>myIgnoreOverflows := shouldIgnoreOverflows\<rparr>"

subsection \<open>Sequences of calls\<close>

text \<open>
  The calls a thread can make. A call that ends in an exception leaves the object as the
  call left it and the next call goes on from there; after undefined behaviour there is
  no next state.
\<close>

datatype call =
    Enqueue fragment
  | Dequeue fragment
  | CloseSink fragment
  | IgnoreOverflows bool

definition continues :: "(error + 'a) \<times> AudioQueue \<Rightarrow> AudioQueue option" where
  "continues r = (if fst r = Inl UndefinedBehaviour then None else Some (snd r))"

fun step :: "call \<Rightarrow> AudioQueue \<Rightarrow> AudioQueue option" where
  "step (Enqueue fragment) q = continues (enqueue fragment q)"
| "step (Dequeue fragment) q = continues (dequeue fragment q)"
| "step (CloseSink fragment) q = continues (closeSink fragment q)"
| "step (IgnoreOverflows b) q = Some (ignoreOverflows b q)"

fun run :: "call list \<Rightarrow> AudioQueue \<Rightarrow> AudioQueue option" where
  "run [] q = Some q"
| "run (c # cs) q = (case step c q of None \<Rightarrow> None | Some q' \<Rightarrow> run cs q')"

text \<open>Whether a call ended in an exception, and whether it returned to its caller.\<close>

fun is_exception :: "error \<Rightarrow> bool" where
  "is_exception UndefinedBehaviour = False"
| "is_exception _ = True"

definition raises :: "(error + 'a) \<times> AudioQueue \<Rightarrow> bool" where
  "raises r = (case fst r of Inl e \<Rightarrow> is_exception e | Inr _ \<Rightarrow> False)"

definition returns :: "(error + 'a) \<times> AudioQueue \<Rightarrow> bool" where
  "returns r = (case fst r of Inl _ \<Rightarrow> False | Inr _ \<Rightarrow> True)"

text \<open>
  What every reachable object satisfies: the size is at most the 16-bit capacity that
  \<open>enqueue\<close> works with, and the head is an index of the vector.
\<close>

definition queue_inv :: "AudioQueue \<Rightarrow> bool" where
  "queue_inv q \<longleftrightarrow>
     length (myFragmentQueue q) < 2 ^ 32 \<and>
     unat (mySize q) \<le> length (myFragmentQueue q) mod 65536 \<and>
     (length (myFragmentQueue q) = 0 \<or> unat (myNextFragment q) < length (myFragmentQueue q))"

text \<open>The part of the object that the exchange protocol works on.\<close>

definition queue_state ::
  "AudioQueue \<Rightarrow> uInt32 \<times> uInt32 \<times> fragment list \<times> fragment \<times> fragment" where
  "queue_state q =
     (mySize q, myNextFragment q, myFragmentQueue q,
      myFirstFragmentForEnqueue q, myFirstFragmentForDequeue q)"

text \<open>Overflows are ignored and none has been logged.\<close>

definition quiet :: "AudioQueue \<Rightarrow> bool" where
  "quiet q \<longleftrightarrow> myIgnoreOverflows q \<and> myOverflowLogger q = 0"

subsection \<open>The two threads\<close>

text \<open>
  The producer and the consumer, with the fragments each of them has checked out. A
  thread passes to the queue no fragment (the first call) or a fragment it holds; what
  the queue gives back is then held by that thread. \<open>dequeue\<close> on an empty queue and
  \<open>closeSink\<close> on an occupied slot do not take the fragment they are given. A session
  has an outcome as long as every call passes a fragment its thread holds and no call
  runs into undefined behaviour.
\<close>

record exchange =
  queue :: AudioQueue
  producer :: "nat list"
  consumer :: "nat list"

definition holds :: "nat list \<Rightarrow> fragment \<Rightarrow> bool" where
  "holds held fragment = (case fragment of None \<Rightarrow> True | Some h \<Rightarrow> h \<in> set held)"

definition hand_in :: "fragment \<Rightarrow> nat list \<Rightarrow> nat list" where
  "hand_in fragment held = (case fragment of None \<Rightarrow> held | Some h \<Rightarrow> remove1 h held)"

definition receive :: "fragment \<Rightarrow> nat list \<Rightarrow> nat list" where
  "receive fragment held = (case fragment of None \<Rightarrow> held | Some h \<Rightarrow> h # held)"

definition start :: "AudioQueue \<Rightarrow> exchange" where
  "start q = \<lparr>queue = q, producer = [], consumer = []\<rparr>"

fun exchange_step :: "call \<Rightarrow> exchange \<Rightarrow> exchange option" where
  "exchange_step (Enqueue fragment) s =
     (if \<not> holds (producer s) fragment then None
      else case enqueue fragment (queue s) of
        (Inr newFragment, q') \<Rightarrow>
          Some (s\<lparr>queue := q',
                  producer := receive newFragment (hand_in fragment (producer s))\<rparr>)
      | (Inl e, q') \<Rightarrow> if is_exception e then Some (s\<lparr>queue := q'\<rparr>) else None)"
| "exchange_step (Dequeue fragment) s =
     (if \<not> holds (consumer s) fragment then None
      else case dequeue fragment (queue s) of
        (Inr nextFragment, q') \<Rightarrow>
          Some (s\<lparr>queue := q',
                  consumer := (if mySize (queue s) = 0 then consumer s
                               else receive nextFragment (hand_in fragment (consumer s)))\<rparr>)
      | (Inl e, q') \<Rightarrow> if is_exception e then Some (s\<lparr>queue := q'\<rparr>) else None)"
| "exchange_step (CloseSink fragment) s =
     (if \<not> holds (consumer s) fragment then None
      else case closeSink fragment (queue s) of
        (Inr _, q') \<Rightarrow>
          Some (s\<lparr>queue := q',
                  consumer := (if myFirstFragmentForDequeue (queue s) = None
                               then hand_in fragment (consumer s) else consumer s)\<rparr>)
      | (Inl e, q') \<Rightarrow> if is_exception e then Some (s\<lparr>queue := q'\<rparr>) else None)"
| "exchange_step (IgnoreOverflows b) s = Some (s\<lparr>queue := ignoreOverflows b (queue s)\<rparr>)"

fun exchange_run :: "call list \<Rightarrow> exchange \<Rightarrow> exchange option" where
  "exchange_run [] s = Some s"
| "exchange_run (c # cs) s =
     (case exchange_step c s of None \<Rightarrow> None | Some s' \<Rightarrow> exchange_run cs s')"

text \<open>
  The handles in a list of fragments, and every place where the queue and its two
  clients keep one: the queue slots, the two exchange slots, the producer and the
  consumer.
\<close>

fun handles :: "fragment list \<Rightarrow> nat list" where
  "handles [] = []"
| "handles (None # fs) = handles fs"
| "handles (Some h # fs) = h # handles fs"

definition tracked :: "exchange \<Rightarrow> fragment list" where
  "tracked s =
     myFragmentQueue (queue s)
     @ [myFirstFragmentForEnqueue (queue s), myFirstFragmentForDequeue (queue s)]
     @ map Some (producer s) @ map Some (consumer s)"

definition pool :: "exchange \<Rightarrow> nat multiset" where
  "pool s = mset (handles (tracked s))"

text \<open>No queue slot holds the null handle.\<close>

definition filled :: "AudioQueue \<Rightarrow> bool" where
  "filled q \<longleftrightarrow> None \<notin> set (myFragmentQueue q)"

subsection \<open>The queue as a first-in first-out buffer\<close>

text \<open>
  The logical content of the circular buffer: the \<open>mySize\<close> slots from the head on,
  around the end of the vector, oldest first.
\<close>

definition ring :: "'a list \<Rightarrow> nat \<Rightarrow> nat \<Rightarrow> 'a list" where
  "ring xs head cnt = map (\<lambda>k. xs ! ((head + k) mod length xs)) [0..<cnt]"

definition queued :: "AudioQueue \<Rightarrow> fragment list" where
  "queued q = ring (myFragmentQueue q) (unat (myNextFragment q)) (unat (mySize q))"

text \<open>
  A queue state as the data model describes it, for a capacity from 1 to 65535: the
  head is an index of the vector and the size is at most the capacity.
\<close>

definition well_formed :: "AudioQueue \<Rightarrow> bool" where
  "well_formed q \<longleftrightarrow>
     0 < length (myFragmentQueue q) \<and> length (myFragmentQueue q) < 65536 \<and>
     unat (myNextFragment q) < length (myFragmentQueue q) \<and>
     unat (mySize q) \<le> length (myFragmentQueue q)"

text \<open>
  The reference queue, written from the specification and not from the code: a list of
  at most \<open>depth\<close> fragments, oldest first. Enqueueing appends, and drops the oldest
  fragment when the list is full; dequeueing takes the oldest fragment, or yields "no
  data" (the null handle) and changes nothing when the list is empty.
\<close>

definition fifo_enqueue :: "nat \<Rightarrow> 'a \<Rightarrow> 'a list \<Rightarrow> 'a list" where
  "fifo_enqueue depth x xs = (if length xs < depth then xs @ [x] else tl xs @ [x])"

definition fifo_dequeue :: "fragment list \<Rightarrow> fragment \<times> fragment list" where
  "fifo_dequeue xs = (case xs of [] \<Rightarrow> (None, []) | x # xs' \<Rightarrow> (x, xs'))"

text \<open>
  The fragments that the dequeue calls of a session return, in order, on the reference
  queue and on the code. Calls other than a non-empty enqueue and a dequeue do not touch
  the reference queue.
\<close>

fun fifo_dequeued :: "nat \<Rightarrow> call list \<Rightarrow> fragment list \<Rightarrow> fragment list" where
  "fifo_dequeued depth [] xs = []"
| "fifo_dequeued depth (Enqueue (Some h) # cs) xs =
     fifo_dequeued depth cs (fifo_enqueue depth (Some h) xs)"
| "fifo_dequeued depth (Dequeue f # cs) xs =
     (case fifo_dequeue xs of
        (r, xs') \<Rightarrow> (if r = None then [] else [r]) @ fifo_dequeued depth cs xs')"
| "fifo_dequeued depth (c # cs) xs = fifo_dequeued depth cs xs"

fun dequeued :: "call list \<Rightarrow> AudioQueue \<Rightarrow> fragment list" where
  "dequeued [] q = []"
| "dequeued (Dequeue f # cs) q =
     (case fst (dequeue f q) of
        Inr r \<Rightarrow> (if r = None then [] else [r]) @ dequeued cs (snd (dequeue f q))
      | Inl e \<Rightarrow> if is_exception e then dequeued cs (snd (dequeue f q)) else [])"
| "dequeued (c # cs) q = (case step c q of None \<Rightarrow> [] | Some q' \<Rightarrow> dequeued cs q')"

text \<open>Every call of the session returns: none raises, none is undefined.\<close>

fun never_raises :: "call list \<Rightarrow> AudioQueue \<Rightarrow> bool" where
  "never_raises [] q = True"
| "never_raises (Enqueue f # cs) q =
     (returns (enqueue f q) \<and> never_raises cs (snd (enqueue f q)))"
| "never_raises (Dequeue f # cs) q =
     (returns (dequeue f q) \<and> never_raises cs (snd (dequeue f q)))"
| "never_raises (CloseSink f # cs) q =
     (returns (closeSink f q) \<and> never_raises cs (snd (closeSink f q)))"
| "never_raises (IgnoreOverflows b # cs) q = never_raises cs (ignoreOverflows b q)"

subsection \<open>A worked session\<close>

text \<open>
  A queue of three mono fragments of two samples: the pool is at distances 0, 2, 4
  (queue slots), 6 (enqueue exchange slot) and 8 (dequeue exchange slot). The producer
  fetches its first fragment and publishes four (the fourth overflows); the consumer
  takes one and closes.
\<close>

abbreviation queue_2_3 :: AudioQueue where
  "queue_2_3 \<equiv>
     \<lparr>myFragmentSize = 2, myIsStereo = False,
      myFragmentQueue = [Some 0, Some 2, Some 4],
      myAllFragments = [Some 0, Some 2, Some 4, Some 6, Some 8],
      myFragmentBuffer = 10, mySize = 0, myNextFragment = 0,
      myFirstFragmentForEnqueue = Some 6, myFirstFragmentForDequeue = Some 8,
      myIgnoreOverflows = True, myOverflowLogger = 0\<rparr>"

abbreviation session_2_3 :: "call list" where
  "session_2_3 \<equiv>
     [Enqueue None, Enqueue (Some 6), Enqueue (Some 0), Enqueue (Some 2), Enqueue (Some 4),
      Dequeue None, CloseSink (Some 0)]"

abbreviation queue_2_3_full :: AudioQueue where
  "queue_2_3_full \<equiv>
     \<lparr>myFragmentSize = 2, myIsStereo = False,
      myFragmentQueue = [Some 6, Some 0, Some 2],
      myAllFragments = [Some 0, Some 2, Some 4, Some 6, Some 8],
      myFragmentBuffer = 10, mySize = 3, myNextFragment = 0,
      myFirstFragmentForEnqueue = None, myFirstFragmentForDequeue = Some 8,
      myIgnoreOverflows = True, myOverflowLogger = 0\<rparr>"

abbreviation queue_2_3_closed :: AudioQueue where
  "queue_2_3_closed \<equiv>
     \<lparr>myFragmentSize = 2, myIsStereo = False,
      myFragmentQueue = [Some 4, Some 8, Some 2],
      myAllFragments = [Some 0, Some 2, Some 4, Some 6, Some 8],
      myFragmentBuffer = 10, mySize = 2, myNextFragment = 2,
      myFirstFragmentForEnqueue = None, myFirstFragmentForDequeue = Some 0,
      myIgnoreOverflows = True, myOverflowLogger = 0\<rparr>"

text \<open>
  The same queue after the session \<open>enqueue(), enqueue(6), dequeue()\<close>, which leaves it
  empty with fragment 6 at the consumer, and after
  \<open>enqueue(), enqueue(6), enqueue(0), dequeue()\<close>, which leaves one fragment queued.
\<close>

abbreviation queue_2_3_drained :: AudioQueue where
  "queue_2_3_drained \<equiv>
     \<lparr>myFragmentSize = 2, myIsStereo = False,
      myFragmentQueue = [Some 8, Some 2, Some 4],
      myAllFragments = [Some 0, Some 2, Some 4, Some 6, Some 8],
      myFragmentBuffer = 10, mySize = 0, myNextFragment = 1,
      myFirstFragmentForEnqueue = None, myFirstFragmentForDequeue = None,
      myIgnoreOverflows = True, myOverflowLogger = 0\<rparr>"

abbreviation queue_2_3_playing :: AudioQueue where
  "queue_2_3_playing \<equiv>
     \<lparr>myFragmentSize = 2, myIsStereo = False,
      myFragmentQueue = [Some 8, Some 0, Some 4],
      myAllFragments = [Some 0, Some 2, Some 4, Some 6, Some 8],
      myFragmentBuffer = 10, mySize = 1, myNextFragment = 1,
      myFirstFragmentForEnqueue = None, myFirstFragmentForDequeue = None,
      myIgnoreOverflows = True, myOverflowLogger = 0\<rparr>"

text \<open>A queue of one mono fragment of no samples: all three pool addresses coincide.\<close>

abbreviation queue_0_1 :: AudioQueue where
  "queue_0_1 \<equiv>
     \<lparr>myFragmentSize = 0, myIsStereo = False, myFragmentQueue = [Some 0],
      myAllFragments = [Some 0, Some 0, Some 0], myFragmentBuffer = 0,
      mySize = 0, myNextFragment = 0, myFirstFragmentForEnqueue = Some 0,
      myFirstFragmentForDequeue = Some 0, myIgnoreOverflows = True,
      myOverflowLogger = 0\<rparr>"

text \<open>
  A queue of capacity 0, before and after the producer has fetched its first fragment.
\<close>

abbreviation queue_1_0 :: AudioQueue where
  "queue_1_0 \<equiv>
     \<lparr>myFragmentSize = 1, myIsStereo = False, myFragmentQueue = [],
      myAllFragments = [Some 0, Some 1], myFragmentBuffer = 2, mySize = 0,
      myNextFragment = 0, myFirstFragmentForEnqueue = Some 0,
      myFirstFragmentForDequeue = Some 1, myIgnoreOverflows = True,
      myOverflowLogger = 0\<rparr>"

abbreviation queue_1_0_started :: AudioQueue where
  "queue_1_0_started \<equiv>
     \<lparr>myFragmentSize = 1, myIsStereo = False, myFragmentQueue = [],
      myAllFragments = [Some 0, Some 1], myFragmentBuffer = 2, mySize = 0,
      myNextFragment = 0, myFirstFragmentForEnqueue = None,
      myFirstFragmentForDequeue = Some 1, myIgnoreOverflows = True,
      myOverflowLogger = 0\<rparr>"

text \<open>
  A queue of 65537 mono fragments of one sample, and a session in which the producer
  publishes two fragments and the consumer takes two.
\<close>

abbreviation queue_1_65537 :: AudioQueue where
  "queue_1_65537 \<equiv>
     \<lparr>myFragmentSize = 1, myIsStereo = False,
      myFragmentQueue = map Some [0..<65537],
      myAllFragments = map Some [0..<65537] @ [Some 65537, Some 65538],
      myFragmentBuffer = 65539, mySize = 0, myNextFragment = 0,
      myFirstFragmentForEnqueue = Some 65537, myFirstFragmentForDequeue = Some 65538,
      myIgnoreOverflows = True, myOverflowLogger = 0\<rparr>"

abbreviation session_65537 :: "call list" where
  "session_65537 \<equiv>
     [Enqueue None, Enqueue (Some 65537), Dequeue None, Enqueue (Some 0), Dequeue (Some 65537)]"

section \<open>Index arithmetic and the two operations in closed form\<close>

lemma unat_cap16: "unat (ucast (of_nat n :: uInt16) :: uInt32) = n mod 65536"
  by (simp add: unsigned_ucast_eq unat_of_nat take_bit_eq_mod)

lemma cap16_zero: "(of_nat n :: uInt16) = 0 \<longleftrightarrow> n mod 65536 = 0"
  by (simp add: word_of_nat_eq_0_iff mod_eq_0_iff_dvd)

lemma unat_index16:
  assumes "n mod 65536 \<noteq> 0"
  shows "unat (ucast (x mod ucast (of_nat n :: uInt16) :: uInt32) :: uInt16) = unat x mod (n mod 65536)"
proof -
  have a: "unat (x mod ucast (of_nat n :: uInt16) :: uInt32) = unat x mod (n mod 65536)"
    by (simp add: unat_mod unat_cap16)
  from assms have "unat x mod (n mod 65536) < n mod 65536" by simp
  then have "unat x mod (n mod 65536) < 65536"
    by (meson less_trans mod_less_divisor zero_less_numeral)
  then show ?thesis
    by (simp add: unsigned_ucast_eq take_bit_eq_mod a)
qed

lemma enqueue_undefined:
  "fst (enqueue f q) = Inl UndefinedBehaviour \<longleftrightarrow>
     f \<noteq> None \<and> length (myFragmentQueue q) mod 65536 = 0"
  by (cases f) (simp_all add: enqueue_def cap16_zero Let_def split: option.splits)

lemma enqueue_Some:
  assumes "length (myFragmentQueue q) mod 65536 \<noteq> 0"
  shows "enqueue (Some h) q =
    (let c = length (myFragmentQueue q) mod 65536;
         i = unat (myNextFragment q + mySize q) mod c;
         q1 = q\<lparr>myFragmentQueue := (myFragmentQueue q)[i := Some h]\<rparr>
     in (Inr (myFragmentQueue q ! i),
         if unat (mySize q) < c then q1\<lparr>mySize := mySize q + 1\<rparr>
         else if myIgnoreOverflows q
         then q1\<lparr>myNextFragment := of_nat (unat (myNextFragment q + 1) mod c)\<rparr>
         else q1\<lparr>myNextFragment := of_nat (unat (myNextFragment q + 1) mod c),
                 myOverflowLogger := Suc (myOverflowLogger q)\<rparr>))"
proof -
  let ?n = "length (myFragmentQueue q)"
  let ?c = "?n mod 65536"
  have i: "unat (myNextFragment q + mySize q) mod ?c < ?n"
    using assms by (meson mod_less_divisor mod_less_eq_dividend order_less_le_trans bot_nat_0.not_eq_extremum)
  have nx: "(myNextFragment q + 1) mod ucast (of_nat ?n :: uInt16)
              = of_nat (unat (myNextFragment q + 1) mod ?c)"
    by (simp add: word_arith_nat_mod unat_cap16)
  show ?thesis
    using assms i
    by (simp add: enqueue_def Let_def cap16_zero unat_index16 word_less_nat_alt unat_cap16 nx)
qed

lemma dequeue_size_0: "mySize q = 0 \<Longrightarrow> dequeue fragment q = (Inr None, q)"
  by (simp add: dequeue_def)

lemma dequeue_nonempty:
  assumes "mySize q \<noteq> 0" "unat (myNextFragment q) < length (myFragmentQueue q)"
    and "fragment \<noteq> None \<or> myFirstFragmentForDequeue q \<noteq> None"
  shows "dequeue fragment q =
    (let i = unat (myNextFragment q);
         q1 = (if fragment = None then q\<lparr>myFirstFragmentForDequeue := None\<rparr> else q)
     in (Inr (myFragmentQueue q ! i),
         q1\<lparr>myFragmentQueue := (myFragmentQueue q)
                 [i := (if fragment = None then myFirstFragmentForDequeue q else fragment)],
            mySize := mySize q - 1,
            myNextFragment := of_nat (unat (myNextFragment q + 1) mod length (myFragmentQueue q))\<rparr>))"
  using assms by (auto simp: dequeue_def Let_def)

lemma dequeue_undefined: "fst (dequeue f q) \<noteq> Inl UndefinedBehaviour"
  by (simp add: dequeue_def Let_def)

lemma closeSink_undefined: "fst (closeSink f q) \<noteq> Inl UndefinedBehaviour"
  by (simp add: closeSink_def)

lemma enqueue_Some_fields:
  assumes "length (myFragmentQueue q) mod 65536 \<noteq> 0"
  shows "fst (enqueue (Some h) q) =
           Inr (myFragmentQueue q !
             (unat (myNextFragment q + mySize q) mod (length (myFragmentQueue q) mod 65536)))"
    and "myFragmentQueue (snd (enqueue (Some h) q)) =
           (myFragmentQueue q)
             [unat (myNextFragment q + mySize q) mod (length (myFragmentQueue q) mod 65536)
                := Some h]"
    and "myFirstFragmentForEnqueue (snd (enqueue (Some h) q)) = myFirstFragmentForEnqueue q"
    and "myFirstFragmentForDequeue (snd (enqueue (Some h) q)) = myFirstFragmentForDequeue q"
  using assms by (simp_all add: enqueue_Some Let_def)

lemma enqueue_None_empty:
  "myFirstFragmentForEnqueue q = None \<Longrightarrow>
   enqueue None q = (Inl (RuntimeError ''enqueue called empty''), q)"
  by (simp add: enqueue_def)

lemma enqueue_None_first:
  "myFirstFragmentForEnqueue q = Some h \<Longrightarrow>
   enqueue None q = (Inr (Some h), q\<lparr>myFirstFragmentForEnqueue := None\<rparr>)"
  by (simp add: enqueue_def)

lemma enqueue_error_unchanged: "fst (enqueue f q) = Inl e \<Longrightarrow> snd (enqueue f q) = q"
proof (cases f)
  case None
  then show "fst (enqueue f q) = Inl e \<Longrightarrow> snd (enqueue f q) = q"
    by (cases "myFirstFragmentForEnqueue q") (simp_all add: enqueue_def)
next
  case (Some h)
  show "fst (enqueue f q) = Inl e \<Longrightarrow> snd (enqueue f q) = q"
  proof (cases "length (myFragmentQueue q) mod 65536 = 0")
    case True
    with Some show ?thesis by (simp add: enqueue_def cap16_zero)
  next
    case False
    assume "fst (enqueue f q) = Inl e"
    with Some False show ?thesis by (simp add: enqueue_Some Let_def)
  qed
qed

lemma closeSink_error_unchanged: "fst (closeSink f q) = Inl e \<Longrightarrow> snd (closeSink f q) = q"
  by (simp add: closeSink_def split: if_splits)

lemma dequeue_nonempty_fields:
  assumes "mySize q \<noteq> 0" "unat (myNextFragment q) < length (myFragmentQueue q)"
    and "f \<noteq> None \<or> myFirstFragmentForDequeue q \<noteq> None"
  shows "fst (dequeue f q) = Inr (myFragmentQueue q ! unat (myNextFragment q))"
    and "myFragmentQueue (snd (dequeue f q)) =
           (myFragmentQueue q)
             [unat (myNextFragment q) := (if f = None then myFirstFragmentForDequeue q else f)]"
    and "myFirstFragmentForEnqueue (snd (dequeue f q)) = myFirstFragmentForEnqueue q"
    and "myFirstFragmentForDequeue (snd (dequeue f q)) =
           (if f = None then None else myFirstFragmentForDequeue q)"
  by (simp_all add: dequeue_nonempty [OF assms] Let_def)

section \<open>The invariant of reachable queues\<close>

lemma enqueue_inv:
  assumes "queue_inv q" "fst (enqueue f q) \<noteq> Inl UndefinedBehaviour"
  shows "queue_inv (snd (enqueue f q))"
proof (cases f)
  case None
  with assms(1) show ?thesis
    by (simp add: enqueue_def queue_inv_def split: option.splits)
next
  case (Some h)
  let ?n = "length (myFragmentQueue q)"
  let ?c = "?n mod 65536"
  from assms(2) Some have nz: "?c \<noteq> 0"
    by (simp add: enqueue_undefined)
  have m: "?c \<le> ?n" by simp
  have lt: "?c < 65536" by simp
  have nx: "unat (myNextFragment q + 1) mod ?c < ?n"
    using nz m by (meson mod_less_divisor order_less_le_trans bot_nat_0.not_eq_extremum)
  have sz: "unat (mySize q) < ?c \<Longrightarrow> unat (mySize q + 1) = unat (mySize q) + 1"
    using lt by (simp add: unat_word_ariths)
  show ?thesis
    using assms(1) nz m lt nx sz Some
    by (simp add: enqueue_Some queue_inv_def Let_def unat_of_nat)
qed

lemma dequeue_inv:
  assumes "queue_inv q"
  shows "queue_inv (snd (dequeue f q))"
proof (cases "mySize q = 0")
  case True
  with assms show ?thesis by (simp add: dequeue_size_0)
next
  case False
  let ?n = "length (myFragmentQueue q)"
  from False have "0 < unat (mySize q)" by (simp add: unat_gt_0)
  with assms have n: "0 < ?n" and i: "unat (myNextFragment q) < ?n"
    by (auto simp: queue_inv_def)
  have sz: "unat (mySize q - 1) = unat (mySize q) - 1"
    using False by (rule unat_minus_one)
  have nx: "unat (myNextFragment q + 1) mod ?n < ?n"
    using n by simp
  show ?thesis
  proof (cases "f = None \<and> myFirstFragmentForDequeue q = None")
    case True
    with assms False show ?thesis by (simp add: dequeue_def)
  next
    case False
    moreover from assms have "unat (mySize q) \<le> ?n mod 65536"
      by (simp add: queue_inv_def)
    then have "unat (mySize q) - 1 \<le> ?n mod 65536"
      by (rule le_trans [OF diff_le_self])
    moreover from assms have "?n < 2 ^ 32"
      by (simp add: queue_inv_def)
    ultimately show ?thesis
      using \<open>mySize q \<noteq> 0\<close> i sz nx
      by (simp add: dequeue_nonempty queue_inv_def Let_def unat_of_nat)
  qed
qed

lemma closeSink_inv: "queue_inv q \<Longrightarrow> queue_inv (snd (closeSink f q))"
  by (simp add: closeSink_def queue_inv_def)

lemma step_inv: "queue_inv q \<Longrightarrow> step c q = Some q' \<Longrightarrow> queue_inv q'"
proof (cases c)
  case (Enqueue f)
  assume "queue_inv q" "step c q = Some q'"
  with Enqueue show ?thesis
    using enqueue_inv [of q f] by (simp add: continues_def split: if_splits)
next
  case (Dequeue f)
  assume "queue_inv q" "step c q = Some q'"
  with Dequeue show ?thesis
    using dequeue_inv [of q f] by (simp add: continues_def split: if_splits)
next
  case (CloseSink f)
  assume "queue_inv q" "step c q = Some q'"
  with CloseSink show ?thesis
    using closeSink_inv [of q f] by (simp add: continues_def split: if_splits)
next
  case (IgnoreOverflows b)
  assume "queue_inv q" "step c q = Some q'"
  with IgnoreOverflows show ?thesis
    by (auto simp: ignoreOverflows_def queue_inv_def)
qed

lemma run_inv: "queue_inv q \<Longrightarrow> run cs q = Some q' \<Longrightarrow> queue_inv q'"
proof (induction cs arbitrary: q)
  case Nil
  then show ?case by simp
next
  case (Cons c cs)
  then show ?case by (auto split: option.splits dest: step_inv)
qed

lemma unat_uInt32_less: "unat (w :: uInt32) < 4294967296"
  using unsigned_less [of w] by simp

lemma AudioQueue_inv: "AudioQueue fs cap st = Inr q \<Longrightarrow> queue_inv q"
  by (auto simp: AudioQueue_def queue_inv_def unat_uInt32_less split: if_splits)

lemma enqueue_length:
  "length (myFragmentQueue (snd (enqueue f q))) = length (myFragmentQueue q)"
  by (simp add: enqueue_def Let_def split: option.splits)

lemma dequeue_length:
  "length (myFragmentQueue (snd (dequeue f q))) = length (myFragmentQueue q)"
  by (simp add: dequeue_def Let_def)

lemma closeSink_length:
  "length (myFragmentQueue (snd (closeSink f q))) = length (myFragmentQueue q)"
  by (simp add: closeSink_def)

lemma step_length:
  "step c q = Some q' \<Longrightarrow> length (myFragmentQueue q') = length (myFragmentQueue q)"
  by (cases c)
     (auto simp: continues_def enqueue_length dequeue_length closeSink_length
        ignoreOverflows_def split: if_splits)

lemma run_length:
  "run cs q = Some q' \<Longrightarrow> length (myFragmentQueue q') = length (myFragmentQueue q)"
  by (induction cs arbitrary: q) (auto split: option.splits dest: step_length)

lemma head_in_range:
  assumes "queue_inv q" "mySize q \<noteq> 0"
  shows "unat (myNextFragment q) < length (myFragmentQueue q)"
proof -
  from assms(2) have "0 < unat (mySize q)" by (simp add: unat_gt_0)
  with assms(1) show ?thesis by (auto simp: queue_inv_def)
qed

lemma dequeue_error_unchanged:
  assumes "queue_inv q" "fst (dequeue f q) = Inl e"
  shows "snd (dequeue f q) = q"
proof (cases "mySize q = 0")
  case True
  with assms(2) show ?thesis by (simp add: dequeue_size_0)
next
  case False
  note i = head_in_range [OF assms(1) False]
  show ?thesis
  proof (cases "f = None \<and> myFirstFragmentForDequeue q = None")
    case True
    with False show ?thesis by (simp add: dequeue_def)
  next
    case False
    with \<open>mySize q \<noteq> 0\<close> i assms(2) show ?thesis
      by (simp add: dequeue_nonempty Let_def)
  qed
qed

lemma filled_update: "None \<notin> set xs \<Longrightarrow> x \<noteq> None \<Longrightarrow> None \<notin> set (xs[i := x])"
  by (induction xs arbitrary: i) (auto split: nat.splits)

lemma enqueue_filled: "filled q \<Longrightarrow> filled (snd (enqueue f q))"
proof (cases f)
  case None
  then show "filled q \<Longrightarrow> filled (snd (enqueue f q))"
    by (cases "myFirstFragmentForEnqueue q") (simp_all add: enqueue_def filled_def)
next
  case (Some h)
  assume "filled q"
  show "filled (snd (enqueue f q))"
  proof (cases "length (myFragmentQueue q) mod 65536 = 0")
    case True
    with Some \<open>filled q\<close> show ?thesis by (simp add: enqueue_def cap16_zero)
  next
    case False
    with Some \<open>filled q\<close> show ?thesis
      by (simp add: filled_def enqueue_Some_fields(2) filled_update)
  qed
qed

lemma dequeue_filled: "filled q \<Longrightarrow> filled (snd (dequeue f q))"
  by (cases f) (simp_all add: dequeue_def filled_def Let_def filled_update)

lemma closeSink_filled: "filled q \<Longrightarrow> filled (snd (closeSink f q))"
  by (simp add: closeSink_def filled_def)

lemma step_filled: "filled q \<Longrightarrow> step c q = Some q' \<Longrightarrow> filled q'"
proof (cases c)
  case (Enqueue f)
  assume "filled q" "step c q = Some q'"
  with Enqueue enqueue_filled [of q f] show ?thesis
    by (simp add: continues_def split: if_splits)
next
  case (Dequeue f)
  assume "filled q" "step c q = Some q'"
  with Dequeue dequeue_filled [of q f] show ?thesis
    by (simp add: continues_def split: if_splits)
next
  case (CloseSink f)
  assume "filled q" "step c q = Some q'"
  with CloseSink closeSink_filled [of q f] show ?thesis
    by (simp add: continues_def split: if_splits)
next
  case (IgnoreOverflows b)
  assume "filled q" "step c q = Some q'"
  with IgnoreOverflows show ?thesis
    by (auto simp: ignoreOverflows_def filled_def)
qed

lemma run_filled: "filled q \<Longrightarrow> run cs q = Some q' \<Longrightarrow> filled q'"
proof (induction cs arbitrary: q)
  case Nil
  then show ?case by simp
next
  case (Cons c cs)
  then show ?case by (auto split: option.splits dest: step_filled)
qed

lemma AudioQueue_filled: "AudioQueue fs cap stereo = Inr q \<Longrightarrow> filled q"
  by (auto simp: AudioQueue_def filled_def fragmentAt_def split: if_splits)

lemma fresh_2_3: "AudioQueue 2 3 False = Inr queue_2_3"
  by (simp add: AudioQueue_def fragmentAt_def sampleSize_def upt_rec)

lemma run_2_3: "run session_2_3 queue_2_3 = Some queue_2_3_closed"
  by (simp add: continues_def enqueue_def dequeue_def closeSink_def Let_def)

lemma run_2_3_playing:
  "run [Enqueue None, Enqueue (Some 6), Enqueue (Some 0), Dequeue None] queue_2_3 =
     Some queue_2_3_playing"
  by (simp add: continues_def enqueue_def dequeue_def Let_def)

lemma run_2_3_full:
  "run [Enqueue None, Enqueue (Some 6), Enqueue (Some 0), Enqueue (Some 2)] queue_2_3 =
     Some queue_2_3_full"
  by (simp add: continues_def enqueue_def Let_def)

section \<open>Capacity\<close>

text \<open>
  C2. A queue is constructed with depth \<open>cap\<close> and receives any sequence of enqueue,
  dequeue and closeSink calls (and ignoreOverflows calls), with any arguments. After
  every call that leaves the program in a defined state, \<^verbatim>\<open>capacity()\<close> is still \<open>cap\<close>
  and \<open>0 \<le> size() \<le> capacity()\<close>: the size never exceeds the capacity and never goes
  negative.
\<close>

theorem capacity_invariant:
  assumes "AudioQueue fs cap stereo = Inr q0" and "run calls q0 = Some q"
  shows "capacity q = cap \<and> 0 \<le> unat (size_q q) \<and> unat (size_q q) \<le> unat (capacity q)"
proof -
  have "queue_inv q" using assms AudioQueue_inv run_inv by blast
  then have "unat (mySize q) \<le> length (myFragmentQueue q) mod 65536"
    by (simp add: queue_inv_def)
  also have "\<dots> \<le> length (myFragmentQueue q)" by simp
  finally have "unat (mySize q) \<le> length (myFragmentQueue q)" .
  moreover have "length (myFragmentQueue q) = unat cap"
    using assms by (auto simp: run_length AudioQueue_def split: if_splits)
  ultimately show ?thesis
    by (simp add: capacity_def size_q_def)
qed

theorem capacity_invariant_witness:
  "AudioQueue 2 3 False = Inr queue_2_3 \<and>
   run session_2_3 queue_2_3 = Some queue_2_3_closed \<and>
   capacity queue_2_3_closed = 3 \<and>
   unat (size_q queue_2_3_closed) \<le> unat (capacity queue_2_3_closed)"
  using capacity_invariant [OF fresh_2_3 run_2_3] fresh_2_3 run_2_3 by blast

section \<open>Underflow\<close>

text \<open>
  C4. On a queue of size 0, \<open>dequeue\<close> returns the null handle ("no data") for every
  argument, empty or not, and the whole object is left as it was: size, head, queue
  slots and both exchange slots. No error is raised and the dequeue exchange slot is
  not consumed.
\<close>

theorem dequeue_empty_no_data:
  "mySize q = 0 \<Longrightarrow> dequeue fragment q = (Inr None, q)"
  by (simp add: dequeue_def)

theorem dequeue_empty_no_data_witness:
  "mySize queue_2_3 = 0 \<and> dequeue None queue_2_3 = (Inr None, queue_2_3) \<and>
   myFirstFragmentForDequeue (snd (dequeue None queue_2_3)) = Some 8"
  using dequeue_empty_no_data [of queue_2_3 None] by simp

section \<open>Protocol violations\<close>

lemma enqueue_raises:
  "raises (enqueue f q) \<longleftrightarrow> f = None \<and> myFirstFragmentForEnqueue q = None"
proof (cases f)
  case None
  then show ?thesis by (simp add: enqueue_def raises_def split: option.splits)
next
  case (Some h)
  show ?thesis
  proof (cases "length (myFragmentQueue q) mod 65536 = 0")
    case True
    then show ?thesis using Some by (simp add: enqueue_def raises_def cap16_zero)
  next
    case False
    then show ?thesis using Some by (simp add: enqueue_Some raises_def Let_def)
  qed
qed

lemma enqueue_returns:
  "length (myFragmentQueue q) mod 65536 \<noteq> 0 \<Longrightarrow> \<not> raises (enqueue f q) \<Longrightarrow> returns (enqueue f q)"
  by (cases f) (simp_all add: enqueue_Some Let_def returns_def, simp add: enqueue_def raises_def split: option.splits)

lemma dequeue_raises:
  assumes "queue_inv q"
  shows "raises (dequeue f q) \<longleftrightarrow> f = None \<and> mySize q \<noteq> 0 \<and> myFirstFragmentForDequeue q = None"
proof (cases "mySize q = 0")
  case True
  then show ?thesis by (simp add: dequeue_size_0 raises_def)
next
  case False
  then have "0 < unat (mySize q)" by (simp add: unat_gt_0)
  with assms have i: "unat (myNextFragment q) < length (myFragmentQueue q)"
    by (auto simp: queue_inv_def)
  show ?thesis
  proof (cases "f = None \<and> myFirstFragmentForDequeue q = None")
    case True
    with False show ?thesis by (simp add: dequeue_def raises_def)
  next
    case False
    with \<open>mySize q \<noteq> 0\<close> i show ?thesis
      by (simp add: dequeue_nonempty raises_def Let_def)
  qed
qed

lemma dequeue_returns: "\<not> raises (dequeue f q) \<Longrightarrow> returns (dequeue f q)"
  by (auto simp: dequeue_def raises_def returns_def Let_def split: if_splits)

lemma closeSink_raises:
  "raises (closeSink f q) \<longleftrightarrow> f \<noteq> None \<and> myFirstFragmentForDequeue q \<noteq> None"
  by (simp add: closeSink_def raises_def)

lemma closeSink_returns: "\<not> raises (closeSink f q) \<Longrightarrow> returns (closeSink f q)"
  by (simp add: closeSink_def raises_def returns_def split: if_splits)

text \<open>
  C7. In every state that a constructed queue reaches, an exception escapes from a call
  exactly in three cases: (1) \<open>enqueue\<close> with an empty fragment while the enqueue exchange
  slot is empty, (2) \<open>dequeue\<close> with an empty fragment while \<open>size() > 0\<close> and the dequeue
  exchange slot is empty, (3) \<open>closeSink\<close> with a non-empty fragment while the dequeue
  exchange slot is occupied. In every other case no exception escapes: \<open>dequeue\<close> and
  \<open>closeSink\<close> return, and so does \<open>enqueue\<close> unless the capacity is a multiple of
  65536, where its remainder by the 16-bit capacity is undefined. When the dequeue
  exchange slot is empty, \<open>closeSink\<close> stores the given fragment there (which changes
  nothing when the fragment is itself empty).
\<close>

theorem protocol_violations:
  assumes "AudioQueue fs cap stereo = Inr q0" and "run calls q0 = Some q"
  shows "(raises (enqueue f q) \<longleftrightarrow> f = None \<and> myFirstFragmentForEnqueue q = None) \<and>
         (raises (dequeue f q) \<longleftrightarrow>
            f = None \<and> 0 < unat (size_q q) \<and> myFirstFragmentForDequeue q = None) \<and>
         (raises (closeSink f q) \<longleftrightarrow> f \<noteq> None \<and> myFirstFragmentForDequeue q \<noteq> None) \<and>
         (\<not> raises (dequeue f q) \<longrightarrow> returns (dequeue f q)) \<and>
         (\<not> raises (closeSink f q) \<longrightarrow> returns (closeSink f q)) \<and>
         (\<not> raises (enqueue f q) \<and> unat cap mod 65536 \<noteq> 0 \<longrightarrow> returns (enqueue f q)) \<and>
         (myFirstFragmentForDequeue q = None \<longrightarrow>
            closeSink f q = (Inr (), q\<lparr>myFirstFragmentForDequeue := f\<rparr>))"
proof -
  have inv: "queue_inv q" using assms AudioQueue_inv run_inv by blast
  have len: "length (myFragmentQueue q) = unat cap"
    using assms by (auto simp: run_length AudioQueue_def split: if_splits)
  have "returns (enqueue f q)" if "\<not> raises (enqueue f q)" "unat cap mod 65536 \<noteq> 0"
    using that len by (simp add: enqueue_returns)
  moreover have "closeSink f q = (Inr (), q\<lparr>myFirstFragmentForDequeue := f\<rparr>)"
    if "myFirstFragmentForDequeue q = None"
    using that by (simp add: closeSink_def)
  ultimately show ?thesis
    using dequeue_raises [OF inv, of f] 
    by (simp add: enqueue_raises closeSink_raises dequeue_returns closeSink_returns
         size_q_def unat_gt_0)
qed

theorem protocol_violations_witness:
  "AudioQueue 2 3 False = Inr queue_2_3 \<and>
   run session_2_3 queue_2_3 = Some queue_2_3_closed \<and>
   raises (enqueue None queue_2_3_closed) \<and>
   raises (closeSink (Some 6) queue_2_3_closed) \<and>
   \<not> raises (dequeue None queue_2_3_closed) \<and>
   returns (dequeue None queue_2_3_closed) \<and>
   run [Enqueue None, Enqueue (Some 6), Enqueue (Some 0), Dequeue None] queue_2_3 =
     Some queue_2_3_playing \<and>
   raises (dequeue None queue_2_3_playing) \<and>
   returns (enqueue (Some 2) queue_2_3_playing) \<and>
   returns (closeSink (Some 6) queue_2_3_playing) \<and>
   closeSink (Some 6) queue_2_3_playing =
     (Inr (), queue_2_3_playing\<lparr>myFirstFragmentForDequeue := Some 6\<rparr>)"
proof -
  note closed = protocol_violations [OF fresh_2_3 run_2_3]
  note playing = protocol_violations [OF fresh_2_3 run_2_3_playing]
  have "raises (enqueue None queue_2_3_closed) \<and>
        \<not> raises (dequeue None queue_2_3_closed) \<and>
        returns (dequeue None queue_2_3_closed)"
    using closed [of None] by simp
  moreover have "raises (closeSink (Some 6) queue_2_3_closed)"
    using closed [of "Some 6"] by simp
  moreover have "raises (dequeue None queue_2_3_playing)"
    using playing [of None] by (simp add: size_q_def)
  moreover have "returns (enqueue (Some 2) queue_2_3_playing)"
    using playing [of "Some 2"] by simp
  moreover have "returns (closeSink (Some 6) queue_2_3_playing) \<and>
        closeSink (Some 6) queue_2_3_playing =
          (Inr (), queue_2_3_playing\<lparr>myFirstFragmentForDequeue := Some 6\<rparr>)"
    using playing [of "Some 6"] by (simp add: returns_def)
  ultimately show ?thesis
    using fresh_2_3 run_2_3 run_2_3_playing by blast
qed

section \<open>Overflow notifications\<close>

lemma enqueue_flag:
  "fst (enqueue f (q\<lparr>myIgnoreOverflows := b\<rparr>)) = fst (enqueue f q) \<and>
   queue_state (snd (enqueue f (q\<lparr>myIgnoreOverflows := b\<rparr>))) = queue_state (snd (enqueue f q))"
  by (simp add: enqueue_def queue_state_def Let_def split: option.splits)

text \<open>
  C8. For every queue state and every fragment argument, \<open>enqueue\<close> returns the same
  value and leaves the same size, head, queue slots and exchange slots whatever the
  ignore-overflows flag was set to before the call; with the flag set the logger is not
  invoked. The flag decides only whether the overflow is logged, never whether or which
  fragment is dropped.
\<close>

theorem ignoreOverflows_logging_only:
  "fst (enqueue f (ignoreOverflows b q)) = fst (enqueue f (ignoreOverflows b' q)) \<and>
   queue_state (snd (enqueue f (ignoreOverflows b q))) =
     queue_state (snd (enqueue f (ignoreOverflows b' q))) \<and>
   myOverflowLogger (snd (enqueue f (ignoreOverflows True q))) = myOverflowLogger q"
proof -
  have "myOverflowLogger (snd (enqueue f (ignoreOverflows True q))) = myOverflowLogger q"
    by (simp add: enqueue_def ignoreOverflows_def Let_def split: option.splits)
  then show ?thesis
    by (simp add: ignoreOverflows_def enqueue_flag)
qed

theorem ignoreOverflows_logging_only_witness:
  "fst (enqueue (Some 4) (ignoreOverflows True queue_2_3_full)) = Inr (Some 6) \<and>
   fst (enqueue (Some 4) (ignoreOverflows False queue_2_3_full)) = Inr (Some 6) \<and>
   queue_state (snd (enqueue (Some 4) (ignoreOverflows True queue_2_3_full))) =
     queue_state (snd (enqueue (Some 4) (ignoreOverflows False queue_2_3_full))) \<and>
   myOverflowLogger (snd (enqueue (Some 4) (ignoreOverflows True queue_2_3_full))) = 0 \<and>
   myOverflowLogger (snd (enqueue (Some 4) (ignoreOverflows False queue_2_3_full))) = 1"
  using ignoreOverflows_logging_only [of "Some 4" True queue_2_3_full False]
  by (simp add: enqueue_def ignoreOverflows_def Let_def)

lemma enqueue_quiet: "quiet q \<Longrightarrow> quiet (snd (enqueue f q))"
  by (simp add: enqueue_def quiet_def Let_def split: option.splits)

lemma dequeue_quiet: "quiet q \<Longrightarrow> quiet (snd (dequeue f q))"
  by (simp add: dequeue_def quiet_def Let_def)

lemma closeSink_quiet: "quiet q \<Longrightarrow> quiet (snd (closeSink f q))"
  by (simp add: closeSink_def quiet_def)

lemma step_quiet:
  "quiet q \<Longrightarrow> IgnoreOverflows False \<noteq> c \<Longrightarrow> step c q = Some q' \<Longrightarrow> quiet q'"
  using enqueue_quiet dequeue_quiet closeSink_quiet
  by (cases c) (auto simp: continues_def ignoreOverflows_def quiet_def split: if_splits)

lemma run_quiet:
  "quiet q \<Longrightarrow> IgnoreOverflows False \<notin> set cs \<Longrightarrow> run cs q = Some q' \<Longrightarrow> quiet q'"
proof (induction cs arbitrary: q)
  case Nil
  then show ?case by simp
next
  case (Cons c cs)
  then show ?case by (auto split: option.splits dest: step_quiet)
qed

text \<open>
  C10. A freshly constructed queue has the ignore-overflows flag set. As long as
  \<open>ignoreOverflows(false)\<close> is not called, whatever enqueue, dequeue and closeSink calls
  are made, the flag stays set and the overflow logger is never invoked, although
  fragments are dropped as usual.
\<close>

theorem overflow_logging_off_by_default:
  assumes "AudioQueue fs cap stereo = Inr q0" and "run calls q0 = Some q"
    and "IgnoreOverflows False \<notin> set calls"
  shows "myIgnoreOverflows q0 \<and> myIgnoreOverflows q \<and> myOverflowLogger q = 0"
proof -
  have "quiet q0" using assms(1) by (auto simp: AudioQueue_def quiet_def split: if_splits)
  then have "quiet q" using assms(3,2) by (rule run_quiet)
  with \<open>quiet q0\<close> show ?thesis by (simp add: quiet_def)
qed

theorem overflow_logging_off_by_default_witness:
  "AudioQueue 2 3 False = Inr queue_2_3 \<and>
   run session_2_3 queue_2_3 = Some queue_2_3_closed \<and>
   IgnoreOverflows False \<notin> set session_2_3 \<and>
   myIgnoreOverflows queue_2_3 \<and> myIgnoreOverflows queue_2_3_closed \<and>
   myOverflowLogger queue_2_3_closed = 0"
proof -
  have "IgnoreOverflows False \<notin> set session_2_3" by simp
  from overflow_logging_off_by_default [OF fresh_2_3 run_2_3 this] this fresh_2_3 run_2_3
  show ?thesis by blast
qed

section \<open>Conservation of the fragment pool\<close>

lemma handles_append: "handles (xs @ ys) = handles xs @ handles ys"
  by (induction xs rule: handles.induct) simp_all

lemma handles_map_Some: "handles (map Some xs) = xs"
  by (induction xs) simp_all

lemma mset_handles_update:
  "i < length xs \<Longrightarrow>
   mset (handles (xs[i := x])) + mset (handles [xs ! i]) = mset (handles xs) + mset (handles [x])"
proof (induction xs arbitrary: i)
  case Nil
  then show ?case by simp
next
  case (Cons a xs)
  show ?case
  proof (cases i)
    case 0
    then show ?thesis by (cases a; cases x) simp_all
  next
    case (Suc j)
    with Cons.prems have "j < length xs" by simp
    from Cons.IH [OF this] Suc show ?thesis by (cases a) simp_all
  qed
qed

lemma nth_handles: "None \<notin> set xs \<Longrightarrow> i < length xs \<Longrightarrow> \<exists>h. xs ! i = Some h \<and> h \<in> set (handles xs)"
proof (induction xs arbitrary: i)
  case Nil
  then show ?case by simp
next
  case (Cons a xs)
  show ?case
  proof (cases i)
    case 0
    with Cons.prems show ?thesis by (cases a) simp_all
  next
    case (Suc j)
    with Cons.prems have "None \<notin> set xs" "j < length xs" by simp_all
    from Cons.IH [OF this] Suc show ?thesis by (cases a) auto
  qed
qed

lemma pool_eq:
  "pool s = mset (handles (myFragmentQueue (queue s)))
     + mset (handles [myFirstFragmentForEnqueue (queue s)])
     + mset (handles [myFirstFragmentForDequeue (queue s)])
     + mset (producer s) + mset (consumer s)"
  by (cases "myFirstFragmentForEnqueue (queue s)"; cases "myFirstFragmentForDequeue (queue s)")
     (simp_all add: pool_def tracked_def handles_append handles_map_Some)

lemma holds_hand_in:
  "holds held f \<Longrightarrow> mset (hand_in f held) + mset (handles [f]) = mset held"
  by (cases f) (simp_all add: holds_def hand_in_def)

lemma mset_receive: "mset (receive r held) = mset (handles [r]) + mset held"
  by (cases r) (simp_all add: receive_def)

lemma enqueue_pool:
  assumes "holds (producer s) f" and "enqueue f (queue s) = (Inr r, q')"
  shows "pool (s\<lparr>queue := q', producer := receive r (hand_in f (producer s))\<rparr>) = pool s"
proof (cases f)
  case None
  show ?thesis
  proof (cases "myFirstFragmentForEnqueue (queue s)")
    case empty: None
    with assms(2) \<open>f = None\<close> show ?thesis by (simp add: enqueue_None_empty)
  next
    case (Some h)
    with assms(2) \<open>f = None\<close>
    have "r = Some h" "q' = (queue s)\<lparr>myFirstFragmentForEnqueue := None\<rparr>"
      by (simp_all add: enqueue_None_first)
    with Some \<open>f = None\<close> show ?thesis
      by (simp add: pool_eq hand_in_def receive_def)
  qed
next
  case (Some h)
  let ?Q = "myFragmentQueue (queue s)"
  let ?c = "length ?Q mod 65536"
  let ?i = "unat (myNextFragment (queue s) + mySize (queue s)) mod ?c"
  let ?E = "mset (handles [myFirstFragmentForEnqueue (queue s)])"
  let ?D = "mset (handles [myFirstFragmentForDequeue (queue s)])"
  let ?P' = "mset (hand_in f (producer s))"
  from assms(2) have fs: "fst (enqueue f (queue s)) = Inr r" "q' = snd (enqueue f (queue s))"
    by simp_all
  then have nz: "?c \<noteq> 0"
    using enqueue_undefined [of f "queue s"] Some by auto
  then have "?i < ?c" by simp
  also have "?c \<le> length ?Q" by simp
  finally have i: "?i < length ?Q" .
  from fs Some enqueue_Some_fields [OF nz, of h]
  have r: "r = ?Q ! ?i" and Q': "myFragmentQueue q' = ?Q[?i := Some h]"
    and e: "myFirstFragmentForEnqueue q' = myFirstFragmentForEnqueue (queue s)"
    and d: "myFirstFragmentForDequeue q' = myFirstFragmentForDequeue (queue s)"
    by simp_all
  from mset_handles_update [OF i, of "Some h"] r
  have A: "mset (handles (?Q[?i := Some h])) + mset (handles [r]) = mset (handles ?Q) + {#h#}"
    by simp
  from assms(1) Some have B: "?P' + {#h#} = mset (producer s)"
    using holds_hand_in [of "producer s" f] by simp
  have "mset (handles (?Q[?i := Some h])) + mset (handles [r]) + ?P'
          = mset (handles ?Q) + {#h#} + ?P'"
    by (simp only: A)
  also have "\<dots> = mset (handles ?Q) + (?P' + {#h#})"
    by (simp only: ac_simps)
  also have "\<dots> = mset (handles ?Q) + mset (producer s)"
    by (simp only: B)
  finally have key: "mset (handles (?Q[?i := Some h])) + mset (handles [r]) + ?P'
          = mset (handles ?Q) + mset (producer s)" .
  have "pool (s\<lparr>queue := q', producer := receive r (hand_in f (producer s))\<rparr>)
          = (mset (handles (?Q[?i := Some h])) + mset (handles [r]) + ?P')
            + (?E + ?D + mset (consumer s))"
    by (simp add: pool_eq Q' e d mset_receive)
  also have "\<dots> = (mset (handles ?Q) + mset (producer s)) + (?E + ?D + mset (consumer s))"
    by (simp only: key)
  also have "\<dots> = pool s"
    by (simp add: pool_eq)
  finally show ?thesis .
qed

lemma dequeue_pool:
  assumes "queue_inv (queue s)" and "holds (consumer s) f"
    and "dequeue f (queue s) = (Inr r, q')"
  shows "pool (s\<lparr>queue := q',
                 consumer := (if mySize (queue s) = 0 then consumer s
                              else receive r (hand_in f (consumer s)))\<rparr>) = pool s"
proof (cases "mySize (queue s) = 0")
  case True
  with assms(3) show ?thesis by (simp add: dequeue_size_0 pool_eq)
next
  case False
  let ?Q = "myFragmentQueue (queue s)"
  let ?i = "unat (myNextFragment (queue s))"
  let ?E = "mset (handles [myFirstFragmentForEnqueue (queue s)])"
  let ?D = "mset (handles [myFirstFragmentForDequeue (queue s)])"
  note i = head_in_range [OF assms(1) False]
  have given: "f \<noteq> None \<or> myFirstFragmentForDequeue (queue s) \<noteq> None"
  proof (rule ccontr)
    assume "\<not> (f \<noteq> None \<or> myFirstFragmentForDequeue (queue s) \<noteq> None)"
    then have "f = None \<and> myFirstFragmentForDequeue (queue s) = None" by simp
    with False have "fst (dequeue f (queue s)) = Inl (RuntimeError ''dequeue called empty'')"
      by (simp add: dequeue_def)
    with assms(3) show False by simp
  qed
  let ?x = "if f = None then myFirstFragmentForDequeue (queue s) else f"
  from assms(3) have "fst (dequeue f (queue s)) = Inr r" "q' = snd (dequeue f (queue s))"
    by simp_all
  with dequeue_nonempty_fields [OF False i given]
  have r: "r = ?Q ! ?i" and Q': "myFragmentQueue q' = ?Q[?i := ?x]"
    and e: "myFirstFragmentForEnqueue q' = myFirstFragmentForEnqueue (queue s)"
    and d: "myFirstFragmentForDequeue q' =
              (if f = None then None else myFirstFragmentForDequeue (queue s))"
    by (simp_all add: Let_def)
  from mset_handles_update [OF i, of ?x] r
  have A: "mset (handles (?Q[?i := ?x])) + mset (handles [r])
             = mset (handles ?Q) + mset (handles [?x])"
    by simp
  have B: "mset (hand_in f (consumer s)) + mset (handles [?x])
             + mset (handles [myFirstFragmentForDequeue q'])
           = mset (consumer s) + ?D"
  proof (cases f)
    case None
    then show ?thesis by (simp add: d hand_in_def)
  next
    case (Some h)
    with assms(2) holds_hand_in [of "consumer s" f] show ?thesis by (simp add: d)
  qed
  let ?C' = "mset (hand_in f (consumer s))"
  let ?D' = "mset (handles [myFirstFragmentForDequeue q'])"
  have "mset (handles (?Q[?i := ?x])) + mset (handles [r]) + (?C' + ?D')
          = mset (handles ?Q) + mset (handles [?x]) + (?C' + ?D')"
    by (simp only: A)
  also have "\<dots> = mset (handles ?Q) + (?C' + mset (handles [?x]) + ?D')"
    by (simp only: ac_simps)
  also have "\<dots> = mset (handles ?Q) + (mset (consumer s) + ?D)"
    by (simp only: B)
  finally have key: "mset (handles (?Q[?i := ?x])) + mset (handles [r]) + (?C' + ?D')
          = mset (handles ?Q) + (mset (consumer s) + ?D)" .
  have "pool (s\<lparr>queue := q',
                 consumer := (if mySize (queue s) = 0 then consumer s
                              else receive r (hand_in f (consumer s)))\<rparr>)
          = (mset (handles (?Q[?i := ?x])) + mset (handles [r]) + (?C' + ?D'))
            + (?E + mset (producer s))"
    using False by (simp add: pool_eq Q' e mset_receive)
  also have "\<dots> = (mset (handles ?Q) + (mset (consumer s) + ?D)) + (?E + mset (producer s))"
    by (simp only: key)
  also have "\<dots> = pool s"
    by (simp add: pool_eq)
  finally show ?thesis .
qed

lemma closeSink_pool:
  assumes "holds (consumer s) f" and "closeSink f (queue s) = (Inr u, q')"
  shows "pool (s\<lparr>queue := q',
                 consumer := (if myFirstFragmentForDequeue (queue s) = None
                              then hand_in f (consumer s) else consumer s)\<rparr>) = pool s"
proof (cases "myFirstFragmentForDequeue (queue s)")
  case None
  with assms(2) have q': "q' = (queue s)\<lparr>myFirstFragmentForDequeue := f\<rparr>"
    by (simp add: closeSink_def)
  from holds_hand_in [OF assms(1)] None show ?thesis
    by (simp add: pool_eq q' add.assoc add.commute [of "mset (handles [f])"])
next
  case (Some d)
  with assms(2) have "q' = queue s"
    by (simp add: closeSink_def split: if_splits)
  with Some show ?thesis by (simp add: pool_eq)
qed

lemma continues_Inr: "continues (Inr r, q') = Some q'"
  by (simp add: continues_def)

lemma continues_Inl: "continues (Inl e, q') = (if is_exception e then Some q' else None)"
  by (cases e) (simp_all add: continues_def)

lemma exchange_step_queue:
  assumes "exchange_step c s = Some s'"
  shows "step c (queue s) = Some (queue s')"
proof (cases c)
  case (Enqueue f)
  obtain res q' where res: "enqueue f (queue s) = (res, q')" by (cases "enqueue f (queue s)")
  with assms Enqueue show ?thesis
    by (cases res) (auto simp: continues_Inl continues_Inr split: if_splits)
next
  case (Dequeue f)
  obtain res q' where res: "dequeue f (queue s) = (res, q')" by (cases "dequeue f (queue s)")
  with assms Dequeue show ?thesis
    by (cases res) (auto simp: continues_Inl continues_Inr split: if_splits)
next
  case (CloseSink f)
  obtain res q' where res: "closeSink f (queue s) = (res, q')" by (cases "closeSink f (queue s)")
  with assms CloseSink show ?thesis
    by (cases res) (auto simp: continues_Inl continues_Inr split: if_splits)
next
  case (IgnoreOverflows b)
  with assms show ?thesis by auto
qed

lemma exchange_step_pool:
  assumes "queue_inv (queue s)" and "exchange_step c s = Some s'"
  shows "pool s' = pool s"
proof (cases c)
  case (Enqueue f)
  obtain res q' where res: "enqueue f (queue s) = (res, q')" by (cases "enqueue f (queue s)")
  show ?thesis
  proof (cases res)
    case (Inl e)
    with res enqueue_error_unchanged [of f "queue s" e] have "q' = queue s" by simp
    with assms(2) Enqueue res Inl show ?thesis by (auto split: if_splits)
  next
    case (Inr r)
    with assms(2) Enqueue res enqueue_pool [of s f r q'] show ?thesis
      by (auto split: if_splits)
  qed
next
  case (Dequeue f)
  obtain res q' where res: "dequeue f (queue s) = (res, q')" by (cases "dequeue f (queue s)")
  show ?thesis
  proof (cases res)
    case (Inl e)
    with res dequeue_error_unchanged [OF assms(1), of f e] have "q' = queue s" by simp
    with assms(2) Dequeue res Inl show ?thesis by (auto split: if_splits)
  next
    case (Inr r)
    with assms(2) Dequeue res dequeue_pool [OF assms(1), of f r q'] show ?thesis
      by (auto split: if_splits)
  qed
next
  case (CloseSink f)
  obtain res q' where res: "closeSink f (queue s) = (res, q')" by (cases "closeSink f (queue s)")
  show ?thesis
  proof (cases res)
    case (Inl e)
    with res closeSink_error_unchanged [of f "queue s" e] have "q' = queue s" by simp
    with assms(2) CloseSink res Inl show ?thesis by (auto split: if_splits)
  next
    case (Inr r)
    with assms(2) CloseSink res closeSink_pool [of s f r q'] show ?thesis
      by (auto split: if_splits)
  qed
next
  case (IgnoreOverflows b)
  with assms(2) show ?thesis by (auto simp: pool_eq ignoreOverflows_def)
qed

lemma exchange_run_queue:
  "exchange_run cs s = Some s' \<Longrightarrow> run cs (queue s) = Some (queue s')"
proof (induction cs arbitrary: s)
  case Nil
  then show ?case by simp
next
  case (Cons c cs)
  then obtain s1 where s1: "exchange_step c s = Some s1" "exchange_run cs s1 = Some s'"
    by (auto split: option.splits)
  with Cons.IH [of s1] exchange_step_queue [of c s s1] show ?case by simp
qed

lemma exchange_run_pool:
  "queue_inv (queue s) \<Longrightarrow> exchange_run cs s = Some s' \<Longrightarrow> pool s' = pool s"
proof (induction cs arbitrary: s)
  case Nil
  then show ?case by simp
next
  case (Cons c cs)
  then obtain s1 where s1: "exchange_step c s = Some s1" "exchange_run cs s1 = Some s'"
    by (auto split: option.splits)
  from s1(1) have "step c (queue s) = Some (queue s1)" by (rule exchange_step_queue)
  with Cons.prems(1) have "queue_inv (queue s1)" by (rule step_inv)
  with Cons.IH [of s1] s1(2) exchange_step_pool [OF Cons.prems(1) s1(1)] show ?case by simp
qed

lemma handles_fresh:
  assumes "AudioQueue fs cap stereo = Inr q0"
  shows "tracked (start q0) = myAllFragments q0" and "length (handles (myAllFragments q0)) = unat cap + 2"
  using assms
  by (auto simp: AudioQueue_def tracked_def start_def fragmentAt_def handles_append
        handles_map_Some [of "map f xs" for f xs, simplified map_map comp_def] split: if_splits)

lemma handles_tracked:
  "handles (tracked s) =
     handles (myFragmentQueue (queue s))
     @ handles [myFirstFragmentForEnqueue (queue s), myFirstFragmentForDequeue (queue s)]
     @ producer s @ consumer s"
  by (simp only: tracked_def handles_append handles_map_Some)

lemma queued_not_held:
  assumes "distinct (handles (tracked s))"
    and "r \<in> set (handles (myFragmentQueue (queue s)))"
    and "f \<in> set (producer s) \<union> set (consumer s)"
  shows "r \<noteq> f"
  using assms unfolding handles_tracked by auto

text \<open>
  The pool addresses that the constructor computes are pairwise distinct when the
  fragments are not empty and the pool fits into the 32-bit address arithmetic.
\<close>

lemma unat_sampleSize: "unat (ucast (sampleSize stereo) :: uInt32) = unat (sampleSize stereo)"
  by (simp add: sampleSize_def)

lemma sampleSize_pos: "0 < unat (sampleSize stereo)"
  by (simp add: sampleSize_def)

lemma unat_fragment_offset:
  assumes "i * unat (sampleSize stereo) * unat fs < 2 ^ 32" and "i < 2 ^ 32"
  shows "unat ((of_nat i :: uInt32) * ucast (sampleSize stereo) * fs)
           = i * unat (sampleSize stereo) * unat fs"
proof -
  have "unat ((of_nat i :: uInt32) * ucast (sampleSize stereo) * fs)
          = (i mod 2 ^ 32 * unat (sampleSize stereo) mod 2 ^ 32 * unat fs) mod 2 ^ 32"
    by (simp add: unat_word_ariths unat_of_nat unat_sampleSize)
  also have "\<dots> = (i * unat (sampleSize stereo) * unat fs) mod 2 ^ 32"
    using assms(2) by (simp add: mod_mult_left_eq)
  also have "\<dots> = i * unat (sampleSize stereo) * unat fs"
    using assms(1) by simp
  finally show ?thesis .
qed

lemma pool_distinct:
  assumes "AudioQueue fs cap stereo = Inr q0" and "fs \<noteq> 0"
    and "(unat cap + 2) * unat (sampleSize stereo) * unat fs \<le> 2 ^ 32"
  shows "distinct (handles (myAllFragments q0))"
proof -
  let ?k = "unat (sampleSize stereo) * unat fs"
  let ?n = "unat cap + 2"
  from assms(2) have "0 < unat fs" by (simp add: unat_gt_0)
  with sampleSize_pos [of stereo] have k: "0 < ?k" by simp
  have off: "unat ((of_nat i :: uInt32) * ucast (sampleSize stereo) * fs) = i * ?k"
    if "i < ?n" for i
  proof -
    from that k have "i * ?k < ?n * ?k" by (rule mult_less_mono1)
    also from assms(3) have "?n * ?k \<le> 2 ^ 32" by (simp only: mult.assoc)
    finally have b: "i * ?k < 2 ^ 32" .
    then have a: "i * unat (sampleSize stereo) * unat fs < 2 ^ 32" by (simp only: mult.assoc)
    have "i \<le> i * ?k" using k by simp
    from this b have "i < 2 ^ 32" by (rule le_less_trans)
    from unat_fragment_offset [OF a this] show ?thesis by (simp only: mult.assoc)
  qed
  have all: "myAllFragments q0 = map (\<lambda>i. fragmentAt fs stereo (of_nat i)) [0..<?n]"
    using assms(1) by (auto simp: AudioQueue_def add.commute split: if_splits)
  have "handles (myAllFragments q0) =
          map (\<lambda>i. unat ((of_nat i :: uInt32) * ucast (sampleSize stereo) * fs)) [0..<?n]"
    unfolding all fragmentAt_def
    by (simp only: handles_map_Some [of "map f xs" for f xs, simplified map_map comp_def])
  also have "\<dots> = map (\<lambda>i. i * ?k) [0..<?n]"
    by (rule map_cong [OF refl]) (simp only: off set_upt atLeastLessThan_iff)
  finally have "handles (myAllFragments q0) = map (\<lambda>i. i * ?k) [0..<?n]" .
  moreover have "inj_on (\<lambda>i. i * ?k) (set [0..<?n])"
    using k by (simp add: inj_on_def)
  ultimately show ?thesis by (simp add: distinct_map)
qed

lemma exchange_2_3:
  "exchange_run session_2_3 (start queue_2_3) =
     Some \<lparr>queue = queue_2_3_closed, producer = [6], consumer = []\<rparr>"
  by (simp add: start_def holds_def hand_in_def receive_def enqueue_def dequeue_def
        closeSink_def Let_def)

lemma exchange_2_3_drained:
  "exchange_run [Enqueue None, Enqueue (Some 6), Dequeue None] (start queue_2_3) =
     Some \<lparr>queue = queue_2_3_drained, producer = [0], consumer = [6]\<rparr>"
  by (simp add: start_def holds_def hand_in_def receive_def enqueue_def dequeue_def Let_def)

lemma exchange_2_3_playing:
  "exchange_run [Enqueue None, Enqueue (Some 6), Enqueue (Some 0), Dequeue None]
     (start queue_2_3) =
     Some \<lparr>queue = queue_2_3_playing, producer = [2], consumer = [6]\<rparr>"
  by (simp add: start_def holds_def hand_in_def receive_def enqueue_def dequeue_def Let_def)

lemma distinct_2_3: "distinct (handles (myAllFragments queue_2_3))"
  by simp

text \<open>
  C1, as amended. A queue is constructed whose \<open>capacity + 2\<close> pool addresses are
  pairwise distinct (as they are whenever \<open>fragmentSize \<ge> 1\<close> and the pool fits into
  the 32-bit address arithmetic), and the producer and the consumer make any sequence of
  enqueue, dequeue and closeSink calls in which each passes no fragment or one it holds.
  Then the handles in the queue slots, the two exchange slots and the hands of the
  producer and the consumer are always the pool as a multiset: exactly \<open>capacity + 2\<close>
  handles, pairwise distinct, none duplicated, dropped or handed out twice.
\<close>

theorem conservation:
  assumes "AudioQueue fs cap stereo = Inr q0"
    and "distinct (handles (myAllFragments q0))"
    and "exchange_run calls (start q0) = Some s"
  shows "mset (handles (tracked s)) = mset (handles (myAllFragments q0)) \<and>
         distinct (handles (tracked s)) \<and>
         length (handles (tracked s)) = unat cap + 2"
proof -
  have "queue_inv (queue (start q0))"
    using assms(1) by (simp add: start_def AudioQueue_inv)
  then have "pool s = pool (start q0)"
    using assms(3) by (rule exchange_run_pool)
  then have eq: "mset (handles (tracked s)) = mset (handles (myAllFragments q0))"
    using handles_fresh(1) [OF assms(1)] by (simp add: pool_def)
  have "distinct (handles (tracked s))"
    using assms(2) mset_eq_imp_distinct_iff [OF eq] by blast
  moreover have "length (handles (tracked s)) = unat cap + 2"
    using mset_eq_length [OF eq] handles_fresh(2) [OF assms(1)] by simp
  ultimately show ?thesis using eq by blast
qed

theorem conservation_witness:
  "AudioQueue 2 3 False = Inr queue_2_3 \<and>
   distinct (handles (myAllFragments queue_2_3)) \<and>
   exchange_run session_2_3 (start queue_2_3) =
     Some \<lparr>queue = queue_2_3_closed, producer = [6], consumer = []\<rparr> \<and>
   handles (tracked \<lparr>queue = queue_2_3_closed, producer = [6], consumer = []\<rparr>) =
     [4, 8, 2, 0, 6] \<and>
   distinct (handles (tracked \<lparr>queue = queue_2_3_closed, producer = [6], consumer = []\<rparr>)) \<and>
   length (handles (tracked \<lparr>queue = queue_2_3_closed, producer = [6], consumer = []\<rparr>)) = 5"
proof -
  have "handles (tracked \<lparr>queue = queue_2_3_closed, producer = [6], consumer = []\<rparr>) =
     [4, 8, 2, 0, 6]"
    by (simp add: tracked_def)
  moreover have "unat (3 :: uInt32) + 2 = 5" by simp
  ultimately show ?thesis
    using conservation [OF fresh_2_3 distinct_2_3 exchange_2_3] fresh_2_3 distinct_2_3
      exchange_2_3
    by metis
qed

text \<open>
  C1 as stated fails for \<open>fragmentSize = 0\<close>: the stride between two fragments is then
  0 samples and the three handles of a fresh queue of capacity 1 are one and the same
  address.
\<close>

theorem conservation_counterexample:
  "AudioQueue 0 1 False = Inr queue_0_1 \<and>
   handles (tracked (start queue_0_1)) = [0, 0, 0] \<and>
   \<not> distinct (handles (tracked (start queue_0_1)))"
  by (simp add: AudioQueue_def fragmentAt_def sampleSize_def tracked_def start_def)

section \<open>One-for-one exchange\<close>

text \<open>
  C5, as amended. In every state that the two threads reach on a queue with pairwise
  distinct pool addresses: \<open>enqueue(f)\<close> with a fragment \<open>f\<close> that the producer holds
  returns exactly one handle, and it is not \<open>f\<close>, provided the capacity is not a multiple
  of 65536 (so for every capacity from 1 to 65535); \<open>dequeue(f)\<close> with a fragment \<open>f\<close>
  that the consumer holds returns exactly one handle, and it is not \<open>f\<close>, provided
  \<open>size() > 0\<close>.
\<close>

theorem one_for_one_exchange:
  assumes "AudioQueue fs cap stereo = Inr q0"
    and "distinct (handles (myAllFragments q0))"
    and "exchange_run calls (start q0) = Some s"
  shows "(f \<in> set (producer s) \<and> unat cap mod 65536 \<noteq> 0 \<longrightarrow>
            (\<exists>r. fst (enqueue (Some f) (queue s)) = Inr (Some r) \<and> r \<noteq> f)) \<and>
         (f \<in> set (consumer s) \<and> 0 < unat (size_q (queue s)) \<longrightarrow>
            (\<exists>r. fst (dequeue (Some f) (queue s)) = Inr (Some r) \<and> r \<noteq> f))"
proof -
  let ?q = "queue s"
  let ?Q = "myFragmentQueue ?q"
  have run: "run calls q0 = Some ?q"
    using exchange_run_queue [OF assms(3)] by (simp add: start_def)
  have inv: "queue_inv ?q"
    using AudioQueue_inv [OF assms(1)] run by (rule run_inv)
  have full: "None \<notin> set ?Q"
    using run_filled [OF AudioQueue_filled [OF assms(1)] run] by (simp add: filled_def)
  have len: "length ?Q = unat cap"
    using assms(1) run_length [OF run] by (auto simp: AudioQueue_def split: if_splits)
  have "pool s = pool (start q0)"
    using AudioQueue_inv [OF assms(1)] assms(3) exchange_run_pool [of "start q0" calls s]
    by (simp add: start_def)
  then have "mset (handles (tracked s)) = mset (handles (myAllFragments q0))"
    using handles_fresh(1) [OF assms(1)] by (simp add: pool_def)
  from mset_eq_imp_distinct_iff [OF this] assms(2)
  have dist: "distinct (handles (tracked s))" by blast
  have enq: "\<exists>r. fst (enqueue (Some f) ?q) = Inr (Some r) \<and> r \<noteq> f"
    if f: "f \<in> set (producer s)" and nz: "unat cap mod 65536 \<noteq> 0"
  proof -
    let ?c = "length ?Q mod 65536"
    let ?i = "unat (myNextFragment ?q + mySize ?q) mod ?c"
    from nz len have c: "?c \<noteq> 0" by simp
    then have "?i < ?c" by simp
    also have "?c \<le> length ?Q" by simp
    finally have "?i < length ?Q" .
    from nth_handles [OF full this] obtain r where r: "?Q ! ?i = Some r" "r \<in> set (handles ?Q)"
      by blast
    from queued_not_held [OF dist r(2)] f have "r \<noteq> f" by simp
    with r(1) enqueue_Some_fields(1) [OF c, of f] show ?thesis by simp
  qed
  have deq: "\<exists>r. fst (dequeue (Some f) ?q) = Inr (Some r) \<and> r \<noteq> f"
    if f: "f \<in> set (consumer s)" and sz: "0 < unat (size_q ?q)"
  proof -
    from sz have nonempty: "mySize ?q \<noteq> 0" by (auto simp: size_q_def)
    note i = head_in_range [OF inv nonempty]
    from nth_handles [OF full i] obtain r
      where r: "?Q ! unat (myNextFragment ?q) = Some r" "r \<in> set (handles ?Q)"
      by blast
    from queued_not_held [OF dist r(2)] f have "r \<noteq> f" by simp
    with r(1) dequeue_nonempty_fields(1) [OF nonempty i, of "Some f"] show ?thesis by simp
  qed
  from enq deq show ?thesis by blast
qed

theorem one_for_one_exchange_witness:
  "AudioQueue 2 3 False = Inr queue_2_3 \<and>
   distinct (handles (myAllFragments queue_2_3)) \<and>
   exchange_run [Enqueue None, Enqueue (Some 6), Enqueue (Some 0), Dequeue None]
     (start queue_2_3) =
     Some \<lparr>queue = queue_2_3_playing, producer = [2], consumer = [6]\<rparr> \<and>
   (\<exists>r. fst (enqueue (Some 2) queue_2_3_playing) = Inr (Some r) \<and> r \<noteq> 2) \<and>
   (\<exists>r. fst (dequeue (Some 6) queue_2_3_playing) = Inr (Some r) \<and> r \<noteq> 6)"
proof -
  have "\<exists>r. fst (enqueue (Some 2) queue_2_3_playing) = Inr (Some r) \<and> r \<noteq> 2"
    using one_for_one_exchange [OF fresh_2_3 distinct_2_3 exchange_2_3_playing, of 2]
    by simp
  moreover have "\<exists>r. fst (dequeue (Some 6) queue_2_3_playing) = Inr (Some r) \<and> r \<noteq> 6"
    using one_for_one_exchange [OF fresh_2_3 distinct_2_3 exchange_2_3_playing, of 6]
    by (simp add: size_q_def)
  ultimately show ?thesis
    using fresh_2_3 distinct_2_3 exchange_2_3_playing by blast
qed

text \<open>
  C5 as stated fails for \<open>dequeue\<close> on an empty queue: the consumer holds fragment 6,
  passes it, and receives the null handle, that is no fragment at all; the queue keeps
  nothing of the call.
\<close>

theorem one_for_one_exchange_counterexample:
  "AudioQueue 2 3 False = Inr queue_2_3 \<and>
   exchange_run [Enqueue None, Enqueue (Some 6), Dequeue None] (start queue_2_3) =
     Some \<lparr>queue = queue_2_3_drained, producer = [0], consumer = [6]\<rparr> \<and>
   dequeue (Some 6) queue_2_3_drained = (Inr None, queue_2_3_drained)"
  using fresh_2_3 exchange_2_3_drained by (simp add: dequeue_def)

section \<open>The circular buffer\<close>

lemma mod_add_neq_less:
  fixes a n j k :: nat
  assumes "k < n" "j < k"
  shows "(a + j) mod n \<noteq> (a + k) mod n"
proof
  assume "(a + j) mod n = (a + k) mod n"
  then have "(a + k) mod n = (a + j) mod n" by simp
  moreover have "a + j \<le> a + k" using assms by simp
  ultimately have "n dvd (a + k) - (a + j)" by (simp only: mod_eq_dvd_iff_nat)
  then have "n dvd k - j" by simp
  moreover have "0 < k - j" "k - j < n" using assms by simp_all
  ultimately show False by (simp add: nat_dvd_not_less)
qed

lemma mod_add_neq:
  fixes a n j k :: nat
  assumes "j < n" "k < n" "j \<noteq> k"
  shows "(a + j) mod n \<noteq> (a + k) mod n"
proof (cases "j < k")
  case True
  with assms(2) show ?thesis by (rule mod_add_neq_less)
next
  case False
  with assms(3) have "k < j" by simp
  with assms(1) have "(a + k) mod n \<noteq> (a + j) mod n" by (rule mod_add_neq_less)
  then show ?thesis by simp
qed

lemma length_ring: "length (ring xs head cnt) = cnt"
  by (simp add: ring_def)

lemma nth_ring: "k < cnt \<Longrightarrow> ring xs head cnt ! k = xs ! ((head + k) mod length xs)"
  by (simp add: ring_def)

lemma ring_push:
  assumes "cnt < length xs"
  shows "ring (xs[(head + cnt) mod length xs := x]) head (Suc cnt) = ring xs head cnt @ [x]"
proof (rule nth_equalityI)
  show "length (ring (xs[(head + cnt) mod length xs := x]) head (Suc cnt))
          = length (ring xs head cnt @ [x])"
    by (simp add: length_ring)
next
  fix k
  assume "k < length (ring (xs[(head + cnt) mod length xs := x]) head (Suc cnt))"
  then have k: "k < Suc cnt" by (simp add: length_ring)
  let ?n = "length xs"
  from assms have n: "0 < ?n" by (cases xs) simp_all
  show "ring (xs[(head + cnt) mod ?n := x]) head (Suc cnt) ! k = (ring xs head cnt @ [x]) ! k"
  proof (cases "k = cnt")
    case True
    have "(head + cnt) mod ?n < ?n" using n by simp
    with True show ?thesis by (simp add: nth_ring nth_append length_ring)
  next
    case False
    with k have lt: "k < cnt" by simp
    with assms have "k < ?n" by simp
    from mod_add_neq [OF this assms False, of head]
    have "xs[(head + cnt) mod ?n := x] ! ((head + k) mod ?n) = xs ! ((head + k) mod ?n)"
      by simp
    with lt show ?thesis by (simp add: nth_ring nth_append length_ring)
  qed
qed

lemma ring_shift:
  assumes "head < length xs" and "0 < cnt" and "cnt \<le> length xs"
  shows "ring (xs[head := x]) ((head + 1) mod length xs) (cnt - 1) = tl (ring xs head cnt)"
proof (rule nth_equalityI)
  show "length (ring (xs[head := x]) ((head + 1) mod length xs) (cnt - 1))
          = length (tl (ring xs head cnt))"
    by (simp add: length_ring)
next
  fix k
  assume "k < length (ring (xs[head := x]) ((head + 1) mod length xs) (cnt - 1))"
  then have k: "k < cnt - 1" by (simp add: length_ring)
  let ?n = "length xs"
  from k assms(3) have "Suc k < ?n" by simp
  moreover from assms(1) have "0 < ?n" by (cases xs) simp_all
  ultimately have "(head + Suc k) mod ?n \<noteq> (head + 0) mod ?n"
    by (intro mod_add_neq) simp_all
  with assms(1) have neq: "(head + Suc k) mod ?n \<noteq> head" by simp
  have "((head + 1) mod ?n + k) mod ?n = (head + Suc k) mod ?n"
    by (simp add: mod_add_left_eq)
  with neq k show "ring (xs[head := x]) ((head + 1) mod ?n) (cnt - 1) ! k
                     = tl (ring xs head cnt) ! k"
    by (simp add: nth_ring nth_tl length_ring)
qed

lemma hd_ring:
  assumes "head < length xs" and "0 < cnt"
  shows "hd (ring xs head cnt) = xs ! head"
proof -
  from assms(2) have "ring xs head cnt \<noteq> []" using length_ring [of xs head cnt] by auto
  then have "hd (ring xs head cnt) = ring xs head cnt ! 0" by (rule hd_conv_nth)
  with assms show ?thesis by (simp add: nth_ring)
qed

lemma ring_overwrite:
  assumes "head < length xs"
  shows "ring (xs[head := x]) ((head + 1) mod length xs) (length xs)
           = tl (ring xs head (length xs)) @ [x]"
proof (rule nth_equalityI)
  show "length (ring (xs[head := x]) ((head + 1) mod length xs) (length xs))
          = length (tl (ring xs head (length xs)) @ [x])"
    using assms by (simp add: length_ring)
next
  fix k
  assume "k < length (ring (xs[head := x]) ((head + 1) mod length xs) (length xs))"
  then have k: "k < length xs" by (simp add: length_ring)
  let ?n = "length xs"
  have idx: "((head + 1) mod ?n + k) mod ?n = (head + Suc k) mod ?n"
    by (simp add: mod_add_left_eq)
  show "ring (xs[head := x]) ((head + 1) mod ?n) ?n ! k = (tl (ring xs head ?n) @ [x]) ! k"
  proof (cases "Suc k = ?n")
    case True
    then have "(head + Suc k) mod ?n = head" using assms by simp
    moreover from True have "\<not> k < ?n - 1" by simp
    ultimately show ?thesis using k assms idx
      by (simp add: nth_ring nth_append length_ring)
  next
    case False
    with k have lt: "Suc k < ?n" by simp
    from assms have "0 < ?n" by (cases xs) simp_all
    with lt have "(head + Suc k) mod ?n \<noteq> (head + 0) mod ?n"
      by (intro mod_add_neq) simp_all
    with assms have "(head + Suc k) mod ?n \<noteq> head" by simp
    moreover from lt have "k < ?n - 1" by simp
    ultimately show ?thesis using lt k idx
      by (simp add: nth_ring nth_append nth_tl length_ring)
  qed
qed

lemma queued_length: "length (queued q) = unat (mySize q)"
  by (simp add: queued_def length_ring)

lemma unat_of_nat_small: "m < 65536 \<Longrightarrow> unat (of_nat m :: uInt32) = m"
  by (simp add: unat_of_nat)

lemma well_formed_cap16:
  "well_formed q \<Longrightarrow> length (myFragmentQueue q) mod 65536 = length (myFragmentQueue q)"
  by (simp add: well_formed_def)

lemma unat_sum_small:
  fixes x y :: uInt32
  assumes "unat x < 65536" "unat y \<le> 65536"
  shows "unat (x + y) = unat x + unat y"
  using assms by (simp add: unat_word_ariths)

lemma enqueue_well_formed:
  assumes "well_formed q"
  shows "enqueue (Some h) q =
    (let n = length (myFragmentQueue q);
         i = (unat (myNextFragment q) + unat (mySize q)) mod n;
         q1 = q\<lparr>myFragmentQueue := (myFragmentQueue q)[i := Some h]\<rparr>
     in (Inr (myFragmentQueue q ! i),
         if unat (mySize q) < n then q1\<lparr>mySize := mySize q + 1\<rparr>
         else if myIgnoreOverflows q
         then q1\<lparr>myNextFragment := of_nat ((unat (myNextFragment q) + 1) mod n)\<rparr>
         else q1\<lparr>myNextFragment := of_nat ((unat (myNextFragment q) + 1) mod n),
                 myOverflowLogger := Suc (myOverflowLogger q)\<rparr>))"
proof -
  let ?n = "length (myFragmentQueue q)"
  from assms have n: "0 < ?n" "?n < 65536" "?n mod 65536 = ?n"
    and i: "unat (myNextFragment q) < ?n" and s: "unat (mySize q) \<le> ?n"
    by (simp_all add: well_formed_def)
  from i n(2) have "unat (myNextFragment q) < 65536" by simp
  moreover from s n(2) have "unat (mySize q) \<le> 65536" by simp
  ultimately have a: "unat (myNextFragment q + mySize q)
                        = unat (myNextFragment q) + unat (mySize q)"
    by (rule unat_sum_small)
  from \<open>unat (myNextFragment q) < 65536\<close>
  have b: "unat (myNextFragment q + 1) = unat (myNextFragment q) + 1"
    using unat_sum_small [of "myNextFragment q" 1] by simp
  from n(1) n(3) have "?n mod 65536 \<noteq> 0" by simp
  from enqueue_Some [OF this, of h] show ?thesis
    by (simp only: n(3) a b)
qed

lemma enqueue_not_full:
  assumes "well_formed q" and "unat (mySize q) < length (myFragmentQueue q)"
  shows "fst (enqueue (Some h) q) =
           Inr (myFragmentQueue q !
             ((unat (myNextFragment q) + unat (mySize q)) mod length (myFragmentQueue q)))"
    and "myFragmentQueue (snd (enqueue (Some h) q)) =
           (myFragmentQueue q)
             [(unat (myNextFragment q) + unat (mySize q)) mod length (myFragmentQueue q) := Some h]"
    and "mySize (snd (enqueue (Some h) q)) = mySize q + 1"
    and "unat (mySize q + 1) = Suc (unat (mySize q))"
    and "myNextFragment (snd (enqueue (Some h) q)) = myNextFragment q"
    and "queued (snd (enqueue (Some h) q)) = queued q @ [Some h]"
proof -
  let ?n = "length (myFragmentQueue q)"
  let ?i = "(unat (myNextFragment q) + unat (mySize q)) mod ?n"
  from assms(1) have "?n < 65536" by (simp add: well_formed_def)
  with assms(2) have "unat (mySize q) < 65536" by simp
  then show sz: "unat (mySize q + 1) = Suc (unat (mySize q))"
    using unat_sum_small [of "mySize q" 1] by simp
  from assms(2) show f: "fst (enqueue (Some h) q) = Inr (myFragmentQueue q ! ?i)"
    and Q: "myFragmentQueue (snd (enqueue (Some h) q)) = (myFragmentQueue q)[?i := Some h]"
    and s: "mySize (snd (enqueue (Some h) q)) = mySize q + 1"
    and n: "myNextFragment (snd (enqueue (Some h) q)) = myNextFragment q"
    by (simp_all add: enqueue_well_formed [OF assms(1)] Let_def)
  from ring_push [OF assms(2), of "unat (myNextFragment q)" "Some h"]
  show "queued (snd (enqueue (Some h) q)) = queued q @ [Some h]"
    by (simp add: queued_def Q s n sz)
qed

lemma enqueue_full:
  assumes "well_formed q" and "unat (mySize q) = length (myFragmentQueue q)"
  shows "fst (enqueue (Some h) q) = Inr (myFragmentQueue q ! unat (myNextFragment q))"
    and "myFragmentQueue (snd (enqueue (Some h) q)) =
           (myFragmentQueue q)[unat (myNextFragment q) := Some h]"
    and "mySize (snd (enqueue (Some h) q)) = mySize q"
    and "unat (myNextFragment (snd (enqueue (Some h) q))) =
           (unat (myNextFragment q) + 1) mod length (myFragmentQueue q)"
    and "hd (queued q) = myFragmentQueue q ! unat (myNextFragment q)"
    and "queued (snd (enqueue (Some h) q)) = tl (queued q) @ [Some h]"
proof -
  let ?n = "length (myFragmentQueue q)"
  let ?h = "unat (myNextFragment q)"
  from assms(1) have n: "0 < ?n" "?n < 65536" and i: "?h < ?n"
    by (simp_all add: well_formed_def)
  from i have idx: "(?h + unat (mySize q)) mod ?n = ?h"
    by (simp add: assms(2))
  have "(?h + 1) mod ?n < ?n" using n(1) by simp
  with n(2) have "(?h + 1) mod ?n < 65536" by simp
  then have nx: "unat (of_nat ((?h + 1) mod ?n) :: uInt32) = (?h + 1) mod ?n"
    by (rule unat_of_nat_small)
  from assms(2) show f: "fst (enqueue (Some h) q) = Inr (myFragmentQueue q ! ?h)"
    and Q: "myFragmentQueue (snd (enqueue (Some h) q)) = (myFragmentQueue q)[?h := Some h]"
    and s: "mySize (snd (enqueue (Some h) q)) = mySize q"
    and x: "unat (myNextFragment (snd (enqueue (Some h) q))) = (?h + 1) mod ?n"
    using i nx by (simp_all add: enqueue_well_formed [OF assms(1)] Let_def)
  from i n(1) show "hd (queued q) = myFragmentQueue q ! ?h"
    by (simp add: queued_def hd_ring assms(2))
  from ring_overwrite [OF i, of "Some h"]
  show "queued (snd (enqueue (Some h) q)) = tl (queued q) @ [Some h]"
    by (simp add: queued_def Q s x assms(2))
qed

lemma well_formed_capacity:
  assumes "well_formed q"
  shows "unat (capacity q) = length (myFragmentQueue q)"
    and "size_q q = capacity q \<longleftrightarrow> unat (mySize q) = length (myFragmentQueue q)"
    and "size_q q < capacity q \<longleftrightarrow> unat (mySize q) < length (myFragmentQueue q)"
proof -
  from assms have "length (myFragmentQueue q) < 65536" by (simp add: well_formed_def)
  then show c: "unat (capacity q) = length (myFragmentQueue q)"
    by (simp add: capacity_def unat_of_nat)
  then show "size_q q = capacity q \<longleftrightarrow> unat (mySize q) = length (myFragmentQueue q)"
    by (simp add: size_q_def word_unat_eq_iff)
  from c show "size_q q < capacity q \<longleftrightarrow> unat (mySize q) < length (myFragmentQueue q)"
    by (simp add: size_q_def word_less_nat_alt)
qed

section \<open>Overflow\<close>

text \<open>
  C3, as amended. For every queue state with a capacity from 1 to 65535, a head below
  the capacity and a size of at most the capacity, and every non-empty fragment: when
  the size equals the capacity, \<open>enqueue\<close> returns the handle of the oldest queued
  fragment, which is the one in the head slot, stores the caller's fragment in that
  slot, leaves the size equal to the capacity and advances the head by one modulo the
  capacity, so that the queue holds what it held without its oldest fragment and with
  the new one last; when the size is below the capacity, \<open>enqueue\<close> increments the
  size by one, does not move the head and appends the fragment to what the queue holds.
\<close>

theorem overflow_drop_semantics:
  assumes "well_formed q"
  shows "(size_q q = capacity q \<longrightarrow>
            fst (enqueue (Some h) q) = Inr (hd (queued q)) \<and>
            hd (queued q) = myFragmentQueue q ! unat (myNextFragment q) \<and>
            myFragmentQueue (snd (enqueue (Some h) q)) =
              (myFragmentQueue q)[unat (myNextFragment q) := Some h] \<and>
            size_q (snd (enqueue (Some h) q)) = capacity q \<and>
            unat (myNextFragment (snd (enqueue (Some h) q))) =
              (unat (myNextFragment q) + 1) mod unat (capacity q) \<and>
            queued (snd (enqueue (Some h) q)) = tl (queued q) @ [Some h]) \<and>
         (size_q q < capacity q \<longrightarrow>
            unat (size_q (snd (enqueue (Some h) q))) = unat (size_q q) + 1 \<and>
            myNextFragment (snd (enqueue (Some h) q)) = myNextFragment q \<and>
            queued (snd (enqueue (Some h) q)) = queued q @ [Some h])"
proof (intro conjI impI)
  assume "size_q q = capacity q"
  then have full: "unat (mySize q) = length (myFragmentQueue q)"
    by (simp add: well_formed_capacity(2) [OF assms])
  note e = enqueue_full [OF assms full]
  from e(1,5) show "fst (enqueue (Some h) q) = Inr (hd (queued q))" by simp
  from e(5) show "hd (queued q) = myFragmentQueue q ! unat (myNextFragment q)" .
  from e(2) show "myFragmentQueue (snd (enqueue (Some h) q)) =
              (myFragmentQueue q)[unat (myNextFragment q) := Some h]" .
  from e(3) \<open>size_q q = capacity q\<close> show "size_q (snd (enqueue (Some h) q)) = capacity q"
    by (simp add: size_q_def)
  from e(4) show "unat (myNextFragment (snd (enqueue (Some h) q))) =
              (unat (myNextFragment q) + 1) mod unat (capacity q)"
    by (simp add: well_formed_capacity(1) [OF assms])
  from e(6) show "queued (snd (enqueue (Some h) q)) = tl (queued q) @ [Some h]" .
next
  assume "size_q q < capacity q"
  then have room: "unat (mySize q) < length (myFragmentQueue q)"
    by (simp add: well_formed_capacity(3) [OF assms])
  note e = enqueue_not_full [OF assms room]
  from e(3,4) show "unat (size_q (snd (enqueue (Some h) q))) = unat (size_q q) + 1"
    by (simp add: size_q_def)
  from e(5) show "myNextFragment (snd (enqueue (Some h) q)) = myNextFragment q" .
  from e(6) show "queued (snd (enqueue (Some h) q)) = queued q @ [Some h]" .
qed

theorem overflow_drop_semantics_witness:
  "well_formed queue_2_3_full \<and> size_q queue_2_3_full = capacity queue_2_3_full \<and>
   queued queue_2_3_full = [Some 6, Some 0, Some 2] \<and>
   fst (enqueue (Some 4) queue_2_3_full) = Inr (Some 6) \<and>
   size_q (snd (enqueue (Some 4) queue_2_3_full)) = capacity queue_2_3_full \<and>
   unat (myNextFragment (snd (enqueue (Some 4) queue_2_3_full))) = 1 \<and>
   queued (snd (enqueue (Some 4) queue_2_3_full)) = [Some 0, Some 2, Some 4] \<and>
   well_formed queue_2_3_playing \<and> size_q queue_2_3_playing < capacity queue_2_3_playing \<and>
   queued queue_2_3_playing = [Some 0] \<and>
   unat (size_q (snd (enqueue (Some 2) queue_2_3_playing))) = 2 \<and>
   myNextFragment (snd (enqueue (Some 2) queue_2_3_playing)) = 1 \<and>
   queued (snd (enqueue (Some 2) queue_2_3_playing)) = [Some 0, Some 2]"
proof -
  have wf: "well_formed queue_2_3_full" "well_formed queue_2_3_playing"
    by (simp_all add: well_formed_def)
  have sz: "size_q queue_2_3_full = capacity queue_2_3_full"
    "size_q queue_2_3_playing < capacity queue_2_3_playing"
    by (simp_all add: size_q_def capacity_def)
  have q: "queued queue_2_3_full = [Some 6, Some 0, Some 2]"
    "queued queue_2_3_playing = [Some 0]"
    by (simp_all add: queued_def ring_def upt_rec)
  from overflow_drop_semantics [OF wf(1), of 4] overflow_drop_semantics [OF wf(2), of 2]
  show ?thesis
    using wf sz q by (simp add: capacity_def size_q_def)
qed

text \<open>
  C3 as stated fails for the capacity 0: the fresh queue has size 0, equal to its
  capacity, there is no oldest fragment to return, and \<open>enqueue\<close> takes a remainder
  by 0.
\<close>

theorem overflow_drop_semantics_counterexample:
  "AudioQueue 1 0 False = Inr queue_1_0 \<and>
   run [Enqueue None] queue_1_0 = Some queue_1_0_started \<and>
   size_q queue_1_0_started = capacity queue_1_0_started \<and>
   enqueue (Some 0) queue_1_0_started = (Inl UndefinedBehaviour, queue_1_0_started)"
  by (simp add: AudioQueue_def fragmentAt_def sampleSize_def continues_def enqueue_def
        size_q_def capacity_def)

section \<open>First in, first out\<close>

lemma enqueue_well_formed_preserved:
  assumes "well_formed q"
  shows "well_formed (snd (enqueue f q))"
proof (cases f)
  case None
  with assms show ?thesis
    by (cases "myFirstFragmentForEnqueue q")
       (simp_all add: enqueue_None_empty enqueue_None_first well_formed_def)
next
  case (Some h)
  let ?n = "length (myFragmentQueue q)"
  show ?thesis
  proof (cases "unat (mySize q) < ?n")
    case True
    from enqueue_not_full(2,3,5) [OF assms True, of h] enqueue_not_full(4) [OF assms True]
      assms True Some show ?thesis
      by (simp add: well_formed_def)
  next
    case False
    with assms have full: "unat (mySize q) = ?n" by (simp add: well_formed_def)
    from assms have "0 < ?n" by (simp add: well_formed_def)
    then have "(unat (myNextFragment q) + 1) mod ?n < ?n" by simp
    with enqueue_full(2,3,4) [OF assms full, of h] assms Some show ?thesis
      by (simp add: well_formed_def)
  qed
qed

lemma enqueue_simulates:
  assumes "well_formed q"
  shows "queued (snd (enqueue (Some h) q)) =
           fifo_enqueue (length (myFragmentQueue q)) (Some h) (queued q)"
proof (cases "unat (mySize q) < length (myFragmentQueue q)")
  case True
  with enqueue_not_full(6) [OF assms True, of h] show ?thesis
    by (simp add: fifo_enqueue_def queued_length)
next
  case False
  with assms have full: "unat (mySize q) = length (myFragmentQueue q)"
    by (simp add: well_formed_def)
  with enqueue_full(6) [OF assms full, of h] show ?thesis
    by (simp add: fifo_enqueue_def queued_length)
qed

lemma enqueue_first_queued: "queued (snd (enqueue None q)) = queued q"
  by (cases "myFirstFragmentForEnqueue q")
     (simp_all add: enqueue_None_empty enqueue_None_first queued_def)

lemma closeSink_queued: "queued (snd (closeSink f q)) = queued q"
  by (simp add: closeSink_def queued_def)

lemma closeSink_well_formed: "well_formed q \<Longrightarrow> well_formed (snd (closeSink f q))"
  by (simp add: closeSink_def well_formed_def)

lemma dequeue_simulates:
  assumes "well_formed q" and "returns (dequeue f q)"
  shows "fst (dequeue f q) = Inr (fst (fifo_dequeue (queued q)))"
    and "queued (snd (dequeue f q)) = snd (fifo_dequeue (queued q))"
    and "well_formed (snd (dequeue f q))"
proof -
  let ?n = "length (myFragmentQueue q)"
  let ?h = "unat (myNextFragment q)"
  let ?x = "if f = None then myFirstFragmentForDequeue q else f"
  from assms(1) have n: "0 < ?n" "?n < 65536" and i: "?h < ?n" and s: "unat (mySize q) \<le> ?n"
    by (simp_all add: well_formed_def)
  have "fst (dequeue f q) = Inr (fst (fifo_dequeue (queued q))) \<and>
        queued (snd (dequeue f q)) = snd (fifo_dequeue (queued q)) \<and>
        well_formed (snd (dequeue f q))"
  proof (cases "mySize q = 0")
    case True
    with assms(1) show ?thesis
      by (simp add: dequeue_size_0 queued_def ring_def fifo_dequeue_def)
  next
    case False
    then have pos: "0 < unat (mySize q)" by (simp add: unat_gt_0)
    have given: "f \<noteq> None \<or> myFirstFragmentForDequeue q \<noteq> None"
    proof (rule ccontr)
      assume "\<not> (f \<noteq> None \<or> myFirstFragmentForDequeue q \<noteq> None)"
      with False have "fst (dequeue f q) = Inl (RuntimeError ''dequeue called empty'')"
        by (simp add: dequeue_def)
      with assms(2) show False by (simp add: returns_def)
    qed
    note d = dequeue_nonempty [OF False i given]
    from i n(2) have "?h < 65536" by simp
    then have h1: "unat (myNextFragment q + 1) = ?h + 1"
      using unat_sum_small [of "myNextFragment q" 1] by simp
    have "(?h + 1) mod ?n < ?n" using n(1) by simp
    with n(2) have "(?h + 1) mod ?n < 65536" by simp
    then have nx: "unat (of_nat ((?h + 1) mod ?n) :: uInt32) = (?h + 1) mod ?n"
      by (rule unat_of_nat_small)
    have sz: "unat (mySize q - 1) = unat (mySize q) - 1"
      using False by (rule unat_minus_one)
    have f: "fst (dequeue f q) = Inr (myFragmentQueue q ! ?h)"
      and Q: "myFragmentQueue (snd (dequeue f q)) = (myFragmentQueue q)[?h := ?x]"
      and s': "mySize (snd (dequeue f q)) = mySize q - 1"
      and x: "unat (myNextFragment (snd (dequeue f q))) = (?h + 1) mod ?n"
      using nx by (simp_all add: d Let_def h1)
    have ne: "queued q \<noteq> []"
      using pos queued_length [of q] by auto
    then have split: "queued q = hd (queued q) # tl (queued q)" by simp
    have hd: "hd (queued q) = myFragmentQueue q ! ?h"
      using i pos by (simp add: queued_def hd_ring)
    have tl: "queued (snd (dequeue f q)) = tl (queued q)"
      using ring_shift [OF i pos s, of ?x] by (simp add: queued_def Q s' x sz)
    have fifo: "fifo_dequeue (queued q) = (hd (queued q), tl (queued q))"
      using ne by (cases "queued q") (simp_all add: fifo_dequeue_def)
    have "(?h + 1) mod ?n < ?n" using n(1) by simp
    then have wf: "well_formed (snd (dequeue f q))"
      using n s by (simp add: well_formed_def Q s' x sz)
    from f hd tl fifo wf show ?thesis by simp
  qed
  then show "fst (dequeue f q) = Inr (fst (fifo_dequeue (queued q)))"
    and "queued (snd (dequeue f q)) = snd (fifo_dequeue (queued q))"
    and "well_formed (snd (dequeue f q))"
    by simp_all
qed

lemma ignoreOverflows_queued:
  "queued (ignoreOverflows b q) = queued q" "well_formed (ignoreOverflows b q) = well_formed q"
  by (simp_all add: ignoreOverflows_def queued_def well_formed_def)

lemma returns_continues: "returns r \<Longrightarrow> continues r = Some (snd r)"
  by (cases "fst r") (simp_all add: returns_def continues_def)

text \<open>
  For a capacity from 1 to 65535 the circular buffer simulates the reference queue: as
  long as no call raises, the dequeue calls of a session return exactly what the
  reference queue returns.
\<close>

lemma fifo_refinement:
  assumes "well_formed q" and "never_raises calls q"
  shows "dequeued calls q = fifo_dequeued (length (myFragmentQueue q)) calls (queued q)"
  using assms
proof (induction calls arbitrary: q)
  case Nil
  then show ?case by simp
next
  case (Cons c cs)
  show ?case
  proof (cases c)
    case (Enqueue f)
    let ?q' = "snd (enqueue f q)"
    from Cons.prems Enqueue have r: "returns (enqueue f q)" and nr: "never_raises cs ?q'"
      by simp_all
    have wf: "well_formed ?q'"
      using Cons.prems(1) by (rule enqueue_well_formed_preserved)
    have step: "dequeued (c # cs) q = dequeued cs ?q'"
      using Enqueue returns_continues [OF r] by simp
    also have "\<dots> = fifo_dequeued (length (myFragmentQueue q)) cs (queued ?q')"
      using Cons.IH [OF wf nr] by (simp add: enqueue_length)
    also have "\<dots> = fifo_dequeued (length (myFragmentQueue q)) (c # cs) (queued q)"
    proof (cases f)
      case None
      with Enqueue show ?thesis by (simp add: enqueue_first_queued)
    next
      case (Some h)
      with Enqueue enqueue_simulates [OF Cons.prems(1), of h] show ?thesis by simp
    qed
    finally show ?thesis .
  next
    case (Dequeue f)
    let ?q' = "snd (dequeue f q)"
    from Cons.prems Dequeue have r: "returns (dequeue f q)" and nr: "never_raises cs ?q'"
      by simp_all
    note sim = dequeue_simulates [OF Cons.prems(1) r]
    obtain x xs' where fd: "fifo_dequeue (queued q) = (x, xs')"
      by (cases "fifo_dequeue (queued q)")
    from Cons.IH [OF sim(3) nr]
    have "dequeued cs ?q' = fifo_dequeued (length (myFragmentQueue q)) cs xs'"
      using sim(2) fd by (simp add: dequeue_length)
    with Dequeue sim(1) fd show ?thesis by simp
  next
    case (CloseSink f)
    let ?q' = "snd (closeSink f q)"
    from Cons.prems CloseSink have r: "returns (closeSink f q)" and nr: "never_raises cs ?q'"
      by simp_all
    from Cons.IH [OF closeSink_well_formed [OF Cons.prems(1)] nr]
    have "dequeued cs ?q' = fifo_dequeued (length (myFragmentQueue q)) cs (queued q)"
      by (simp add: closeSink_length closeSink_queued)
    with CloseSink returns_continues [OF r] show ?thesis by simp
  next
    case (IgnoreOverflows b)
    from Cons.prems IgnoreOverflows have nr: "never_raises cs (ignoreOverflows b q)"
      by simp
    from Cons.prems(1) have "well_formed (ignoreOverflows b q)"
      by (simp add: ignoreOverflows_queued)
    from Cons.IH [OF this nr]
    have "dequeued cs (ignoreOverflows b q)
            = fifo_dequeued (length (myFragmentQueue q)) cs (queued q)"
      by (simp add: ignoreOverflows_queued) (simp add: ignoreOverflows_def)
    with IgnoreOverflows show ?thesis by simp
  qed
qed

lemma AudioQueue_well_formed:
  assumes "AudioQueue fs cap stereo = Inr q0" and "0 < unat cap" and "unat cap < 65536"
  shows "well_formed q0" and "queued q0 = []" and "length (myFragmentQueue q0) = unat cap"
  using assms
  by (auto simp: AudioQueue_def well_formed_def queued_def ring_def split: if_splits)

lemma fifo_refinement_fresh:
  assumes "AudioQueue fs cap stereo = Inr q0" and "0 < unat cap" and "unat cap < 65536"
    and "never_raises calls q0"
  shows "dequeued calls q0 = fifo_dequeued (unat cap) calls []"
  using fifo_refinement [OF AudioQueue_well_formed(1) [OF assms(1,2,3)] assms(4)]
  by (simp add: AudioQueue_well_formed(2,3) [OF assms(1,2,3)])

lemma fresh_65537: "AudioQueue 1 65537 False = Inr queue_1_65537"
  by (auto simp: AudioQueue_def fragmentAt_def sampleSize_def unat_of_nat)

text \<open>
  C6. The fragments returned by the dequeue calls are the enqueued fragments in enqueue
  order, without those dropped by overflow: what the reference queue returns. The code
  breaks this for a queue of 65537 fragments. \<open>enqueue\<close> reduces its indices modulo the
  capacity cast to 16 bits, which is 1, while \<open>dequeue\<close> advances the head modulo
  65537. The producer publishes fragment 65537, the consumer takes it, the producer
  publishes fragment 0 into slot 0 again, and the consumer, whose head is now 1,
  receives fragment 1, which was never enqueued. No call raises and nothing overflows
  in the reference queue, which returns fragment 0.
\<close>

theorem fifo_order_broken_at_65537:
  "AudioQueue 1 65537 False = Inr queue_1_65537 \<and>
   never_raises session_65537 queue_1_65537 \<and>
   dequeued session_65537 queue_1_65537 = [Some 65537, Some 1] \<and>
   fifo_dequeued 65537 session_65537 [] = [Some 65537, Some 0]"
proof -
  have "never_raises session_65537 queue_1_65537"
    by (simp add: returns_def enqueue_def dequeue_def Let_def)
  moreover have "dequeued session_65537 queue_1_65537 = [Some 65537, Some 1]"
    by (simp add: continues_def enqueue_def dequeue_def Let_def)
  moreover have "fifo_dequeued 65537 session_65537 [] = [Some 65537, Some 0]"
    by (simp add: fifo_enqueue_def fifo_dequeue_def)
  ultimately show ?thesis using fresh_65537 by blast
qed

end
